theory Spec2Isabelle
  imports Complex_Main "HOL-Library.Sublist" "HOL-Library.AList"
begin

section \<open>JavaScript values as the controller sees them\<close>

text \<open>
  A JavaScript number is a finite value, \<open>NaN\<close> or one of the two infinities. Finite
  values are modelled as exact rationals: every operation the controller applies to them
  (comparison, \<open>Math.floor\<close>, \<open>Math.ceil\<close>, \<open>Math.max\<close>, \<open>Math.min\<close>) is exact on
  doubles; the rounding of a floating point division is not modelled.
\<close>

datatype jsnum = Fin rat | NaN | PosInf | NegInf

text \<open>
  The values that reach \<open>Number(...)\<close>. A string carries, next to its text, the number
  the engine's string-to-number conversion reads from it (\<open>NaN\<close> for a non-numeric
  string): the conversion is a builtin, not code of the repository.
\<close>

datatype jsval = JUndefined | JNull | JBool bool | JNum jsnum | JStr string jsnum

fun js_Number :: "jsval \<Rightarrow> jsnum" where
  "js_Number JUndefined = NaN"
| "js_Number JNull = Fin 0"
| "js_Number (JBool b) = Fin (if b then 1 else 0)"
| "js_Number (JNum x) = x"
| "js_Number (JStr s x) = x"

fun isFinite :: "jsnum \<Rightarrow> bool" where
  "isFinite (Fin q) = True"
| "isFinite NaN = False"
| "isFinite PosInf = False"
| "isFinite NegInf = False"

text \<open>Truthiness of a number: \<open>0\<close> and \<open>NaN\<close> are falsy.\<close>

fun num_truthy :: "jsnum \<Rightarrow> bool" where
  "num_truthy (Fin q) = (q \<noteq> 0)"
| "num_truthy NaN = False"
| "num_truthy PosInf = True"
| "num_truthy NegInf = True"

text \<open>\<open>a || b\<close> on numbers.\<close>

definition num_or :: "jsnum \<Rightarrow> jsnum \<Rightarrow> jsnum" where
  "num_or a b = (if num_truthy a then a else b)"

text \<open>\<open>String(n)\<close> for a non-negative integer (plain decimal digits below \<open>1e21\<close>).\<close>

definition digit_char :: "nat \<Rightarrow> char" where
  "digit_char d = ''0123456789'' ! d"

fun nat_to_string :: "nat \<Rightarrow> string" where
  "nat_to_string n =
     (if n < 10 then [digit_char n] else nat_to_string (n div 10) @ [digit_char (n mod 10)])"

section \<open>Utils\<close>

text \<open>
  \<open>clampInt(n, min, max)\<close>: invalid input gives \<open>min\<close>.
\<close>

definition clampInt :: "jsval \<Rightarrow> int \<Rightarrow> int \<Rightarrow> int" where
  "clampInt n lo hi =
     (let x = js_Number n in
      if \<not> isFinite x then lo
      else (case x of Fin q \<Rightarrow> max lo (min hi \<lfloor>q\<rfloor>) | _ \<Rightarrow> lo))"

section \<open>Rate limit handling\<close>

definition backoff_steps :: "int list" where
  "backoff_steps =
     [30 * 60 * 1000, 60 * 60 * 1000, 2 * 60 * 60 * 1000, 4 * 60 * 60 * 1000, 6 * 60 * 60 * 1000]"

text \<open>
  \<open>computeRateLimitBackoffMs(count)\<close>:
  \<open>c = Math.max(1, Math.floor(Number(count) || 1))\<close> and the result is
  \<open>steps[Math.min(steps.length - 1, c - 1)]\<close>. After \<open>|| 1\<close> the number is never
  \<open>NaN\<close>; \<open>+Infinity\<close> selects the last step and \<open>-Infinity\<close> the first. The index
  is always within the table.
\<close>

definition computeRateLimitBackoffMs :: "jsval \<Rightarrow> int" where
  "computeRateLimitBackoffMs count =
     (case num_or (js_Number count) (Fin 1) of
        Fin q \<Rightarrow>
          (let c = max 1 \<lfloor>q\<rfloor>
           in backoff_steps ! nat (min (int (length backoff_steps) - 1) (c - 1)))
      | PosInf \<Rightarrow> backoff_steps ! (length backoff_steps - 1)
      | _ \<Rightarrow> backoff_steps ! 0)"

text \<open>
  \<open>fmtMin(ms)\<close>: \<open>Math.ceil(Math.max(0, Number(ms) || 0) / 60000) + "m"\<close>.
\<close>

definition fmtMin :: "jsval \<Rightarrow> string" where
  "fmtMin ms =
     (case num_or (js_Number ms) (Fin 0) of
        Fin q \<Rightarrow> nat_to_string (nat \<lceil>max 0 q / 60000\<rceil>) @ ''m''
      | PosInf \<Rightarrow> ''Infinitym''
      | NegInf \<Rightarrow> ''0m''
      | NaN \<Rightarrow> ''NaNm'')"

definition HISTORY_24H_MS :: int where
  "HISTORY_24H_MS = 24 * 60 * 60 * 1000"

section \<open>JSON values\<close>

text \<open>
  What \<open>JSON.parse\<close> returns. \<open>JVNull\<close> is also JavaScript's \<open>null\<close>, which the salvage
  code returns for "nothing picked"; a missing property (\<open>undefined\<close>) is \<open>None\<close>. An
  object is the list of its properties, with distinct keys. A text is the list of its
  characters; the model covers ASCII texts, where a character is one code unit of the
  JavaScript string.
\<close>

datatype json =
    JVNull
  | JVBool bool
  | JVNum rat
  | JVStr string
  | JVArr "json list"
  | JVObj "(string \<times> json) list"

text \<open>Truthiness: \<open>null\<close>, \<open>false\<close>, \<open>0\<close> and \<open>""\<close> are falsy.\<close>

fun truthy :: "json \<Rightarrow> bool" where
  "truthy JVNull = False"
| "truthy (JVBool b) = b"
| "truthy (JVNum q) = (q \<noteq> 0)"
| "truthy (JVStr s) = (s \<noteq> [])"
| "truthy (JVArr xs) = True"
| "truthy (JVObj kvs) = True"

text \<open>\<open>typeof v === "object"\<close>: objects, arrays and \<open>null\<close>.\<close>

fun typeof_object :: "json \<Rightarrow> bool" where
  "typeof_object JVNull = True"
| "typeof_object (JVArr xs) = True"
| "typeof_object (JVObj kvs) = True"
| "typeof_object v = False"

text \<open>
  Property access \<open>v.k\<close> for the names the salvage code reads (\<open>ping\<close>, \<open>download\<close>,
  \<open>upload\<close>, \<open>type\<close>, \<open>isp\<close>, \<open>interface\<close>, \<open>server\<close>, \<open>result\<close>, \<open>data\<close>): only an
  object can have them.
\<close>

fun get_prop :: "json \<Rightarrow> string \<Rightarrow> json option" where
  "get_prop (JVObj kvs) k = map_of kvs k"
| "get_prop v k = None"

definition prop_truthy :: "json \<Rightarrow> string \<Rightarrow> bool" where
  "prop_truthy v k = (case get_prop v k of Some x \<Rightarrow> truthy x | None \<Rightarrow> False)"

definition type_is_result :: "json \<Rightarrow> bool" where
  "type_is_result v = (get_prop v ''type'' = Some (JVStr ''result''))"

text \<open>\<open>a || b\<close>.\<close>

definition js_or :: "json \<Rightarrow> json \<Rightarrow> json" where
  "js_or a b = (if truthy a then a else b)"

section \<open>JSON parsing and salvage\<close>

text \<open>
  The body of the \<open>for\<close> loop of \<open>extractJsonBlockFrom\<close> at one character, on the
  variables \<open>(depth, inStr, esc)\<close>: \<open>None\<close> when the function returns at this
  character (the depth is back at 0), else the updated variables.
\<close>

fun scan_step :: "char \<Rightarrow> int \<times> bool \<times> bool \<Rightarrow> (int \<times> bool \<times> bool) option" where
  "scan_step ch (depth, inStr, esc) =
     (if inStr then
        (if esc then Some (depth, inStr, False)
         else if ch = CHR 0x5C then Some (depth, inStr, True)
         else if ch = CHR 0x22 then Some (depth, False, esc)
         else Some (depth, inStr, esc))
      else if ch = CHR 0x22 then Some (depth, True, esc)
      else if ch = CHR ''{'' \<or> ch = CHR ''['' then Some (depth + 1, inStr, esc)
      else if ch = CHR ''}'' \<or> ch = CHR '']'' then
        (if depth - 1 = 0 then None else Some (depth - 1, inStr, esc))
      else Some (depth, inStr, esc))"

text \<open>
  The loop over the characters from index \<open>i\<close> on: the index at which the depth returns
  to 0, if it does before the text ends.
\<close>

fun scan_block :: "string \<Rightarrow> nat \<Rightarrow> int \<times> bool \<times> bool \<Rightarrow> nat option" where
  "scan_block [] i st = None"
| "scan_block (ch # cs) i st =
     (case scan_step ch st of
        None \<Rightarrow> Some i
      | Some st' \<Rightarrow> scan_block cs (i + 1) st')"

text \<open>\<open>s.slice(a, b)\<close> for \<open>a \<le> b\<close>.\<close>

definition slice :: "string \<Rightarrow> nat \<Rightarrow> nat \<Rightarrow> string" where
  "slice s a b = take (b - a) (drop a s)"

definition extractJsonBlockFrom :: "string \<Rightarrow> nat \<Rightarrow> (string \<times> nat) option" where
  "extractJsonBlockFrom s start =
     (case scan_block (drop start s) start (0, False, False) of
        None \<Rightarrow> None
      | Some i \<Rightarrow> Some (slice s start (i + 1), i))"

text \<open>\<open>scoreCandidate(obj)\<close>.\<close>

definition scoreCandidate :: "json \<Rightarrow> int" where
  "scoreCandidate obj =
     (if \<not> truthy obj \<or> \<not> typeof_object obj then 0
      else (if prop_truthy obj ''ping'' then 2 else 0)
         + (if prop_truthy obj ''download'' then 3 else 0)
         + (if prop_truthy obj ''upload'' then 3 else 0)
         + (if type_is_result obj then 10 else 0)
         + (if prop_truthy obj ''isp'' then 1 else 0)
         + (if prop_truthy obj ''interface'' then 1 else 0)
         + (if prop_truthy obj ''server'' then 1 else 0))"

text \<open>
  The nested object \<open>pickBestSpeedtestResult\<close> looks into: \<open>v.result\<close> when it is a
  truthy object or array, else \<open>v.data\<close> likewise, else nothing.
\<close>

definition object_prop :: "json \<Rightarrow> string \<Rightarrow> json option" where
  "object_prop v k =
     (case get_prop v k of
        Some x \<Rightarrow> if truthy x \<and> typeof_object x then Some x else None
      | None \<Rightarrow> None)"

definition inner_of :: "json \<Rightarrow> json option" where
  "inner_of v =
     (case object_prop v ''result'' of
        Some r \<Rightarrow> Some r
      | None \<Rightarrow> object_prop v ''data'')"

text \<open>
  \<open>pickBestSpeedtestResult(v)\<close>; \<open>pickBestLoop\<close> is its loop over the items of an array,
  with the variables \<open>best\<close> and \<open>bestScore\<close>.
\<close>

function pickBestSpeedtestResult :: "json \<Rightarrow> json"
  and pickBestLoop :: "json list \<Rightarrow> json \<Rightarrow> int \<Rightarrow> json" where
  "pickBestSpeedtestResult v =
     (if \<not> truthy v then JVNull
      else (case v of
              JVArr items \<Rightarrow> pickBestLoop items JVNull 0
            | JVObj kvs \<Rightarrow>
                (if type_is_result v then v
                 else (case inner_of (JVObj kvs) of
                         Some inner \<Rightarrow>
                           (let picked = pickBestSpeedtestResult inner
                            in if truthy picked then picked else v)
                       | None \<Rightarrow> v))
            | _ \<Rightarrow> JVNull))"
| "pickBestLoop [] best bestScore = (if bestScore > 0 then best else JVNull)"
| "pickBestLoop (it # rest) best bestScore =
     (let cand = js_or (pickBestSpeedtestResult it) it;
          sc = scoreCandidate cand
      in if type_is_result cand then cand
         else if sc > bestScore then pickBestLoop rest cand sc
         else pickBestLoop rest best bestScore)"
  by pat_completeness auto
termination
proof (relation "measure (\<lambda>x. case x of Inl v \<Rightarrow> size v
                                   | Inr (items, best, sc) \<Rightarrow> size_list size items)")
  have mo: "map_of kvs k = Some x \<Longrightarrow> size x < Suc (size_list (size_prod (\<lambda>_. 0) size) kvs)"
    for kvs :: "(string \<times> json) list" and k x
    by (induction kvs) (auto split: if_splits)
  have op: "object_prop (JVObj kvs) k = Some x \<Longrightarrow> size x < size (JVObj kvs)" for kvs k x
    using mo [of kvs k x] by (auto simp add: object_prop_def split: option.splits if_splits)
  show "\<And>v x6 x2. \<not> \<not> truthy v \<Longrightarrow> v = JVObj x6 \<Longrightarrow> \<not> type_is_result v \<Longrightarrow>
       inner_of (JVObj x6) = Some x2 \<Longrightarrow>
       (Inl x2, Inl v) \<in> measure (\<lambda>x. case x of Inl v \<Rightarrow> size v
                                   | Inr (items, best, sc) \<Rightarrow> size_list size items)"
    using op by (auto simp add: inner_of_def split: option.splits)
qed auto

text \<open>
  \<open>search\<close> with the character class of the two opening characters: the index of the
  first opening brace or bracket (\<open>None\<close> for \<open>-1\<close>).
\<close>

fun search_open :: "string \<Rightarrow> nat option" where
  "search_open [] = None"
| "search_open (c # cs) =
     (if c = CHR ''{'' \<or> c = CHR ''['' then Some 0 else map_option Suc (search_open cs))"

text \<open>The \<open>while\<close> loop of \<open>extractBestJsonBlock\<close>, with the variables \<open>pos\<close> and \<open>blocks\<close>.\<close>

function collectBlocks :: "string \<Rightarrow> nat \<Rightarrow> string list \<Rightarrow> string list" where
  "collectBlocks s pos blocks =
     (if pos < length s \<and> length blocks < 40 then
        (case search_open (drop pos s) of
           None \<Rightarrow> blocks
         | Some rel \<Rightarrow>
             (case extractJsonBlockFrom s (pos + rel) of
                None \<Rightarrow> collectBlocks s (pos + rel + 1) blocks
              | Some got \<Rightarrow> collectBlocks s (snd got + 1) (blocks @ [fst got])))
      else blocks)"
  by pat_completeness auto
termination
proof (relation "measure (\<lambda>(s, pos, blocks). length s - pos)")
  have sb: "scan_block cs i st = Some j \<Longrightarrow> i \<le> j" for cs i st j
  proof (induction cs arbitrary: i st)
    case Nil
    then show ?case by simp
  next
    case (Cons ch cs)
    have "i \<le> j" if "scan_block cs (Suc i) st' = Some j" for st'
      using Cons.IH [OF that] by simp
    with Cons.prems show ?case by (auto split: option.splits)
  qed
  show "\<And>s pos blocks x2 x2a. pos < length s \<and> length blocks < 40 \<Longrightarrow>
       search_open (drop pos s) = Some x2 \<Longrightarrow> extractJsonBlockFrom s (pos + x2) = Some x2a \<Longrightarrow>
       ((s, snd x2a + 1, blocks @ [fst x2a]), s, pos, blocks)
       \<in> measure (\<lambda>(s, pos, blocks). length s - pos)"
    using sb by (fastforce simp add: extractJsonBlockFrom_def split: option.splits)
qed auto

text \<open>
  The \<open>for\<close> loop of \<open>extractBestJsonBlock\<close> over the blocks, with the variables \<open>best\<close>
  and \<open>bestScore\<close>. \<open>JSON.parse\<close> is the engine's: \<open>parse\<close> stands for it, with \<open>None\<close> for
  a thrown \<open>SyntaxError\<close>.
\<close>

fun scoreBlocks :: "(string \<Rightarrow> json option) \<Rightarrow> string list \<Rightarrow> json \<Rightarrow> int \<Rightarrow> json" where
  "scoreBlocks parse [] best bestScore = best"
| "scoreBlocks parse (b # bs) best bestScore =
     (case parse b of
        None \<Rightarrow> scoreBlocks parse bs best bestScore
      | Some obj0 \<Rightarrow>
          (let obj = js_or (pickBestSpeedtestResult obj0) obj0;
               sc = scoreCandidate obj
           in if sc > bestScore then scoreBlocks parse bs obj sc
              else scoreBlocks parse bs best bestScore))"

definition extractBestJsonBlock :: "(string \<Rightarrow> json option) \<Rightarrow> string \<Rightarrow> json" where
  "extractBestJsonBlock parse text = scoreBlocks parse (collectBlocks text 0 []) JVNull (- 1)"

text \<open>\<open>String.prototype.trim\<close> for ASCII white space and line terminators.\<close>

definition is_space :: "char \<Rightarrow> bool" where
  "is_space c = (c \<in> set [CHR '' '', CHR 0x09, CHR 0x0A, CHR 0x0B, CHR 0x0C, CHR 0x0D])"

definition js_trim :: "string \<Rightarrow> string" where
  "js_trim s = rev (dropWhile is_space (rev (dropWhile is_space s)))"

text \<open>
  The result of \<open>safeJsonParse\<close>: \<open>{ok: true, value, salvaged}\<close>, or
  \<open>{ok: false, error: "empty_output"}\<close>, or \<open>{ok: false, error: "invalid_json", head, tail,
  len}\<close> (the engine's error message is left out).
\<close>

datatype parse_result =
    ParseOk json bool
  | EmptyOutput
  | InvalidJson string string nat

definition safeJsonParse :: "(string \<Rightarrow> json option) \<Rightarrow> string \<Rightarrow> parse_result" where
  "safeJsonParse parse text =
     (let s = js_trim text
      in if s = [] then EmptyOutput
         else (case parse s of
                 Some parsed \<Rightarrow>
                   (let picked = pickBestSpeedtestResult parsed
                    in ParseOk (js_or picked parsed) (truthy picked \<and> picked \<noteq> parsed))
               | None \<Rightarrow>
                   (let best = extractBestJsonBlock parse s
                    in if truthy best then ParseOk best True
                       else InvalidJson (take 200 s) (drop (length s - 200) s) (length s))))"

section \<open>A reference reading of JSON texts\<close>

text \<open>
  \<open>JSON.parse\<close> is the engine's. For the concrete examples below, \<open>json_parse\<close> reads the
  JSON grammar (RFC 8259: white space, literals, numbers with fraction and exponent,
  strings with the simple escapes, arrays, objects; a repeated key keeps its first
  position and its last value). It does not read Unicode escapes. The recursion is
  bounded by the length of the text, which every nesting consumes.
\<close>

definition is_json_ws :: "char \<Rightarrow> bool" where
  "is_json_ws c = (c \<in> set [CHR '' '', CHR 0x09, CHR 0x0A, CHR 0x0D])"

definition skip_ws :: "string \<Rightarrow> string" where
  "skip_ws cs = dropWhile is_json_ws cs"

definition is_digit :: "char \<Rightarrow> bool" where
  "is_digit c = (c \<in> set ''0123456789'')"

definition digit_val :: "char \<Rightarrow> nat" where
  "digit_val c = of_char c - 48"

definition digits_val :: "string \<Rightarrow> nat" where
  "digits_val ds = foldl (\<lambda>a c. a * 10 + digit_val c) 0 ds"

text \<open>The characters of a string after its opening quote, up to the closing one.\<close>

fun parse_string :: "string \<Rightarrow> string \<Rightarrow> (string \<times> string) option" where
  "parse_string [] acc = None"
| "parse_string [c] acc = (if c = CHR 0x22 then Some (acc, []) else None)"
| "parse_string (c # d # cs) acc =
     (if c = CHR 0x22 then Some (acc, d # cs)
      else if c = CHR 0x5C then
        (if d = CHR 0x22 \<or> d = CHR 0x5C \<or> d = CHR ''/'' then parse_string cs (acc @ [d])
         else if d = CHR ''b'' then parse_string cs (acc @ [CHR 0x08])
         else if d = CHR ''f'' then parse_string cs (acc @ [CHR 0x0C])
         else if d = CHR ''n'' then parse_string cs (acc @ [CHR 0x0A])
         else if d = CHR ''r'' then parse_string cs (acc @ [CHR 0x0D])
         else if d = CHR ''t'' then parse_string cs (acc @ [CHR 0x09])
         else None)
      else if (of_char c :: nat) < 32 then None
      else parse_string (d # cs) (acc @ [c]))"

text \<open>A number: sign, integer part without a leading zero, fraction, exponent.\<close>

definition parse_number :: "string \<Rightarrow> (rat \<times> string) option" where
  "parse_number cs =
     (let neg = (cs \<noteq> [] \<and> hd cs = CHR ''-'');
          r0 = (if neg then tl cs else cs);
          ip = takeWhile is_digit r0;
          r1 = dropWhile is_digit r0
      in if ip = [] \<or> (length ip > 1 \<and> hd ip = CHR ''0'') then None
         else
           (let has_frac = (r1 \<noteq> [] \<and> hd r1 = CHR ''.'');
                fp = (if has_frac then takeWhile is_digit (tl r1) else []);
                r2 = (if has_frac then dropWhile is_digit (tl r1) else r1)
            in if has_frac \<and> fp = [] then None
               else
                 (let has_exp = (r2 \<noteq> [] \<and> (hd r2 = CHR ''e'' \<or> hd r2 = CHR ''E''));
                      r3 = (if has_exp then tl r2 else r2);
                      eneg = (has_exp \<and> r3 \<noteq> [] \<and> hd r3 = CHR ''-'');
                      r4 = (if has_exp \<and> r3 \<noteq> [] \<and> (hd r3 = CHR ''-'' \<or> hd r3 = CHR ''+'')
                            then tl r3 else r3);
                      ep = (if has_exp then takeWhile is_digit r4 else []);
                      r5 = (if has_exp then dropWhile is_digit r4 else r2);
                      mant = of_nat (digits_val ip) + of_nat (digits_val fp) / 10 ^ length fp;
                      scaled = (if eneg then mant / 10 ^ digits_val ep else mant * 10 ^ digits_val ep)
                  in if has_exp \<and> ep = [] then None
                     else Some (if neg then - scaled else scaled, r5))))"

fun parse_value :: "nat \<Rightarrow> string \<Rightarrow> (json \<times> string) option"
  and parse_elements :: "nat \<Rightarrow> string \<Rightarrow> json list \<Rightarrow> (json \<times> string) option"
  and parse_members :: "nat \<Rightarrow> string \<Rightarrow> (string \<times> json) list \<Rightarrow> (json \<times> string) option" where
  "parse_value 0 cs = None"
| "parse_value (Suc n) cs =
     (case skip_ws cs of
        [] \<Rightarrow> None
      | c # r \<Rightarrow>
          if c = CHR ''{'' then
            (case skip_ws r of
               [] \<Rightarrow> None
             | d # r' \<Rightarrow> if d = CHR ''}'' then Some (JVObj [], r') else parse_members n r [])
          else if c = CHR ''['' then
            (case skip_ws r of
               [] \<Rightarrow> None
             | d # r' \<Rightarrow> if d = CHR '']'' then Some (JVArr [], r') else parse_elements n r [])
          else if c = CHR 0x22 then
            (case parse_string r [] of
               None \<Rightarrow> None
             | Some (s, r') \<Rightarrow> Some (JVStr s, r'))
          else if take 4 (c # r) = ''true'' then Some (JVBool True, drop 4 (c # r))
          else if take 5 (c # r) = ''false'' then Some (JVBool False, drop 5 (c # r))
          else if take 4 (c # r) = ''null'' then Some (JVNull, drop 4 (c # r))
          else (case parse_number (c # r) of
                  None \<Rightarrow> None
                | Some (q, r') \<Rightarrow> Some (JVNum q, r')))"
| "parse_elements 0 cs acc = None"
| "parse_elements (Suc n) cs acc =
     (case parse_value n cs of
        None \<Rightarrow> None
      | Some (v, r) \<Rightarrow>
          (case skip_ws r of
             [] \<Rightarrow> None
           | d # r' \<Rightarrow>
               if d = CHR '','' then parse_elements n r' (acc @ [v])
               else if d = CHR '']'' then Some (JVArr (acc @ [v]), r')
               else None))"
| "parse_members 0 cs acc = None"
| "parse_members (Suc n) cs acc =
     (case skip_ws cs of
        [] \<Rightarrow> None
      | q # r \<Rightarrow>
          if q \<noteq> CHR 0x22 then None
          else (case parse_string r [] of
                  None \<Rightarrow> None
                | Some (k, r1) \<Rightarrow>
                    (case skip_ws r1 of
                       [] \<Rightarrow> None
                     | col # r2 \<Rightarrow>
                         if col \<noteq> CHR '':'' then None
                         else (case parse_value n r2 of
                                 None \<Rightarrow> None
                               | Some (v, r3) \<Rightarrow>
                                   (case skip_ws r3 of
                                      [] \<Rightarrow> None
                                    | d # r4 \<Rightarrow>
                                        if d = CHR '','' then parse_members n r4 (AList.update k v acc)
                                        else if d = CHR ''}'' then Some (JVObj (AList.update k v acc), r4)
                                        else None)))))"

definition json_parse :: "string \<Rightarrow> json option" where
  "json_parse s =
     (case parse_value (Suc (length s)) s of
        None \<Rightarrow> None
      | Some (v, r) \<Rightarrow> if skip_ws r = [] then Some v else None)"

section \<open>Gauge buckets\<close>

definition gauge_steps :: "int list" where
  "gauge_steps = [25, 50, 75, 100, 150, 200, 250, 300, 400, 500, 750, 1000, 1500, 2000, 3000, 5000]"

text \<open>
  \<open>niceGaugeMaxBucket(mbps, fallback)\<close>: the first step that is at least \<open>x\<close>, where
  \<open>x\<close> is the observation when it is finite and positive and the fallback otherwise;
  above the table, the next multiple of 1000.
\<close>

definition niceGaugeMaxBucket :: "jsval \<Rightarrow> rat \<Rightarrow> int" where
  "niceGaugeMaxBucket mbps fallback =
     (let v = js_Number mbps;
          x = (case v of Fin q \<Rightarrow> if q > 0 then q else fallback | _ \<Rightarrow> fallback)
      in case find (\<lambda>s. x \<le> of_int s) gauge_steps of
           Some s \<Rightarrow> s
         | None \<Rightarrow> \<lceil>x / 1000\<rceil> * 1000)"

section \<open>Controller state\<close>

text \<open>
  Timestamps are integer milliseconds since the epoch (\<open>Date.now()\<close>); the counters and
  gauge hints the controller computes and persists are integers as well. Throughput and
  latency values are finite numbers or \<open>null\<close> (\<open>None\<close>). Each synchronous segment of
  the controller reads the clock once, as the argument \<open>now\<close>. Writing the state file is
  best effort and nothing is read back from it after start-up, so it is not part of the
  state below.
\<close>

record runner =
  kind :: string
  bin :: string

record progress =
  p_ts :: int
  p_stage :: string
  p_ping_ms :: "rat option"
  p_jitter_ms :: "rat option"
  p_down_mbps :: "rat option"
  p_up_mbps :: "rat option"

text \<open>The partial object a progress callback receives: a key may be absent.\<close>

record progress_update =
  u_stage :: "string option"
  u_ping_ms :: "rat option option"
  u_jitter_ms :: "rat option option"
  u_down_mbps :: "rat option option"
  u_up_mbps :: "rat option option"

text \<open>What \<open>runSpeedtest\<close> resolves to.\<close>

record run_result =
  res_runner :: string
  res_ping_ms :: "rat option"
  res_jitter_ms :: "rat option"
  res_down_mbps :: "rat option"
  res_up_mbps :: "rat option"
  res_note :: "string option"
  res_ookla_exit :: "int option"
  res_ookla_rate_limited :: bool

text \<open>
  How the awaited \<open>runSpeedtest\<close> ends: it resolves, it throws a \<open>RateLimitError\<close>
  (message, \<open>retryAfterMs\<close>) or it throws any other error (message).
\<close>

datatype run_outcome =
    Resolved run_result
  | RateLimitError string int
  | OtherError string

record history_entry =
  h_ts :: int
  h_runner :: string
  h_ping_ms :: "rat option"
  h_jitter_ms :: "rat option"
  h_down_mbps :: "rat option"
  h_up_mbps :: "rat option"
  h_note :: string

record controller =
  intervalMin :: int
  rateLimitUntil :: int
  rateLimitCount :: int
  maxDown :: int
  maxUp :: int
  nextRunTs :: int
  history :: "history_entry list"
  runnerInfo :: "runner option"
  runnerName :: "string option"
  progress :: "progress option"
  running :: bool
  lastRun :: "(int \<times> run_result) option"
  lastError :: "string option"

record snapshot_view =
  snap_runner :: "string option"
  snap_running :: bool
  snap_interval_min :: int
  snap_next_run_ts :: int
  snap_last :: "(int \<times> run_result) option"
  snap_last_error :: "string option"
  snap_progress :: "progress option"
  snap_max_down_mbps :: int
  snap_max_up_mbps :: int
  snap_history_24h :: "history_entry list"

text \<open>What \<open>readState\<close> returns when the state file could be read.\<close>

record loaded_state =
  l_interval_min :: "rat option"
  l_rate_limit_until :: int
  l_rate_limit_count :: int
  l_max_down_mbps :: int
  l_max_up_mbps :: int
  l_history :: "history_entry list"

text \<open>
  The asynchronous work an operation launches before it returns: runner detection
  (\<open>ensureRunner\<close> with nothing cached) and the body of \<open>doRun\<close>, which executes the
  speed test process.
\<close>

datatype effect = DetectRunner | StartRun

text \<open>\<open>a || b\<close> on integers, and a nullable number as a value.\<close>

definition int_or :: "int \<Rightarrow> int \<Rightarrow> int" where
  "int_or a b = (if a \<noteq> 0 then a else b)"

definition num_val :: "rat option \<Rightarrow> jsval" where
  "num_val v = (case v of None \<Rightarrow> JNull | Some q \<Rightarrow> JNum (Fin q))"

definition int_val :: "int \<Rightarrow> jsval" where
  "int_val i = JNum (Fin (of_int i))"

section \<open>Controller operations\<close>

text \<open>\<open>pruneHistory(now)\<close>: keeps the last 24 hours, capped at 5000 entries.\<close>

definition pruneHistory :: "int \<Rightarrow> controller \<Rightarrow> controller" where
  "pruneHistory now s =
     (let cutoff = now - HISTORY_24H_MS;
          kept = filter (\<lambda>it. int_or (h_ts it) 0 \<ge> cutoff) (history s)
      in s\<lparr>history := (if length kept > 5000 then drop (length kept - 5000) kept else kept)\<rparr>)"

text \<open>\<open>pushHistory(entry)\<close>, with the fields \<open>doRun\<close> passes.\<close>

definition pushHistory :: "run_result \<Rightarrow> int \<Rightarrow> controller \<Rightarrow> controller" where
  "pushHistory entry now s =
     (let s1 = pruneHistory now s;
          it = \<lparr>h_ts = now,
                h_runner = (if res_runner entry \<noteq> [] then res_runner entry
                            else (case runnerName s1 of Some n \<Rightarrow> n | None \<Rightarrow> [])),
                h_ping_ms = res_ping_ms entry,
                h_jitter_ms = res_jitter_ms entry,
                h_down_mbps = res_down_mbps entry,
                h_up_mbps = res_up_mbps entry,
                h_note = (case res_note entry of Some n \<Rightarrow> n | None \<Rightarrow> [])\<rparr>
      in s1\<lparr>history := history s1 @ [it]\<rparr>)"

text \<open>
  The statement \<open>if (!nextRunTs || nextRunTs < rateLimitUntil) nextRunTs = rateLimitUntil\<close>,
  which \<open>doRun\<close>, \<open>tick\<close> and \<open>runNow\<close> share.
\<close>

definition holdNextRun :: "controller \<Rightarrow> controller" where
  "holdNextRun s =
     (if nextRunTs s = 0 \<or> nextRunTs s < rateLimitUntil s
      then s\<lparr>nextRunTs := rateLimitUntil s\<rparr> else s)"

text \<open>\<open>ensureRunner\<close> after its \<open>await detectRunner()\<close>, given what was detected.\<close>

definition ensureRunner_resume :: "runner option \<Rightarrow> controller \<Rightarrow> controller" where
  "ensureRunner_resume det s = s\<lparr>runnerInfo := det, runnerName := map_option kind det\<rparr>"

text \<open>The progress callback \<open>doRun\<close> hands to \<open>runSpeedtest\<close>.\<close>

definition onProgress :: "progress_update \<Rightarrow> int \<Rightarrow> controller \<Rightarrow> controller" where
  "onProgress p now s =
     (let p0 = (case progress s of
                  Some q \<Rightarrow> q
                | None \<Rightarrow> \<lparr>p_ts = now, p_stage = ''running'', p_ping_ms = None,
                            p_jitter_ms = None, p_down_mbps = None, p_up_mbps = None\<rparr>)
      in s\<lparr>progress := Some
             \<lparr>p_ts = now,
              p_stage = (case u_stage p of Some v \<Rightarrow> v | None \<Rightarrow> p_stage p0),
              p_ping_ms = (case u_ping_ms p of Some v \<Rightarrow> v | None \<Rightarrow> p_ping_ms p0),
              p_jitter_ms = (case u_jitter_ms p of Some v \<Rightarrow> v | None \<Rightarrow> p_jitter_ms p0),
              p_down_mbps = (case u_down_mbps p of Some v \<Rightarrow> v | None \<Rightarrow> p_down_mbps p0),
              p_up_mbps = (case u_up_mbps p of Some v \<Rightarrow> v | None \<Rightarrow> p_up_mbps p0)\<rparr>\<rparr>)"

text \<open>
  \<open>doRun\<close> up to its first \<open>await\<close>: the single-flight guard, then the flags of a run that
  starts. The rest of the body runs later, as \<open>doRun_resume\<close>.
\<close>

definition doRun :: "int \<Rightarrow> controller \<Rightarrow> effect list \<times> controller" where
  "doRun now s =
     (if running s then ([], s)
      else ([StartRun],
            s\<lparr>running := True,
              lastError := None,
              progress := Some \<lparr>p_ts = now, p_stage = ''starting'', p_ping_ms = None,
                                p_jitter_ms = None, p_down_mbps = None, p_up_mbps = None\<rparr>\<rparr>))"

text \<open>The progress-only fields merged into the final result.\<close>

definition final_result :: "progress option \<Rightarrow> run_result \<Rightarrow> run_result" where
  "final_result pr res =
     (case pr of
        None \<Rightarrow> res
      | Some p \<Rightarrow>
          res\<lparr>res_ping_ms := (case res_ping_ms res of None \<Rightarrow> p_ping_ms p | Some v \<Rightarrow> Some v),
              res_jitter_ms := (case res_jitter_ms res of None \<Rightarrow> p_jitter_ms p | Some v \<Rightarrow> Some v),
              res_down_mbps := (case res_down_mbps res of None \<Rightarrow> p_down_mbps p | Some v \<Rightarrow> Some v),
              res_up_mbps := (case res_up_mbps res of None \<Rightarrow> p_up_mbps p | Some v \<Rightarrow> Some v)\<rparr>)"

text \<open>The first block of the \<open>try\<close>: a fallback result after an Ookla rate limit.\<close>

definition noteFallbackRateLimit :: "int \<Rightarrow> controller \<Rightarrow> controller" where
  "noteFallbackRateLimit now s =
     (let cnt = max 1 (int_or (rateLimitCount s) 0 + 1);
          backoffMs = computeRateLimitBackoffMs (int_val cnt);
          s1 = holdNextRun (s\<lparr>rateLimitCount := cnt, rateLimitUntil := now + backoffMs\<rparr>)
      in s1\<lparr>lastError := Some (''rate_limited: retry in '' @ fmtMin (int_val backoffMs)
                                 @ '' (fallback used)''),
             progress := map_option (\<lambda>p. p\<lparr>p_stage := ''rate_limited'', p_ts := now\<rparr>) (progress s1)\<rparr>)"

text \<open>The second block: any other completed run clears the window and the counter.\<close>

definition clearRateLimit :: "controller \<Rightarrow> controller" where
  "clearRateLimit s =
     (if rateLimitUntil s \<noteq> 0 \<or> rateLimitCount s \<noteq> 0
      then s\<lparr>rateLimitUntil := 0, rateLimitCount := 0\<rparr> else s)"

text \<open>The rest of the \<open>try\<close>: gauge hints, last result, history, final progress.\<close>

definition recordResult :: "run_result \<Rightarrow> int \<Rightarrow> controller \<Rightarrow> controller" where
  "recordResult res now s =
     (let final = final_result (progress s) res;
          nextMaxDown = niceGaugeMaxBucket (num_val (res_down_mbps final)) 250;
          nextMaxUp = niceGaugeMaxBucket (num_val (res_up_mbps final)) 50;
          s1 = s\<lparr>maxDown := (if nextMaxDown \<noteq> 0 \<and> nextMaxDown \<noteq> maxDown s
                               then nextMaxDown else maxDown s),
                  maxUp := (if nextMaxUp \<noteq> 0 \<and> nextMaxUp \<noteq> maxUp s
                             then nextMaxUp else maxUp s)\<rparr>;
          s2 = s1\<lparr>lastRun := Some (now, final), runnerName := Some (res_runner final)\<rparr>;
          s3 = pushHistory final now s2
      in s3\<lparr>progress :=
               map_option
                 (\<lambda>p. p\<lparr>p_stage := ''done'',
                         p_ping_ms := (case res_ping_ms final of Some v \<Rightarrow> Some v | None \<Rightarrow> p_ping_ms p),
                         p_jitter_ms := (case res_jitter_ms final of Some v \<Rightarrow> Some v | None \<Rightarrow> p_jitter_ms p),
                         p_down_mbps := (case res_down_mbps final of Some v \<Rightarrow> Some v | None \<Rightarrow> p_down_mbps p),
                         p_up_mbps := (case res_up_mbps final of Some v \<Rightarrow> Some v | None \<Rightarrow> p_up_mbps p),
                         p_ts := now\<rparr>)
                 (progress s3)\<rparr>)"

text \<open>
  \<open>doRun\<close> from the point where the awaited \<open>runSpeedtest\<close> has ended, through
  \<open>finally\<close>.
\<close>

definition doRun_resume :: "run_outcome \<Rightarrow> int \<Rightarrow> controller \<Rightarrow> controller" where
  "doRun_resume out now s =
     (case out of
        Resolved res \<Rightarrow>
          (let s1 = (if res_ookla_rate_limited res then noteFallbackRateLimit now s else s);
               s2 = (if \<not> res_ookla_rate_limited res then clearRateLimit s1 else s1)
           in (recordResult res now s2)\<lparr>running := False\<rparr>)
      | RateLimitError msg retryAfterMs \<Rightarrow>
          (let cnt = max 1 (int_or (rateLimitCount s) 0 + 1);
               backoffMs = int_or retryAfterMs (computeRateLimitBackoffMs (int_val cnt));
               s1 = holdNextRun (s\<lparr>rateLimitCount := cnt, rateLimitUntil := now + backoffMs\<rparr>)
           in s1\<lparr>lastError := Some (''rate_limited: retry in '' @ fmtMin (int_val backoffMs)),
                  progress := map_option (\<lambda>p. p\<lparr>p_stage := ''rate_limited'', p_ts := now\<rparr>) (progress s1),
                  running := False\<rparr>)
      | OtherError msg \<Rightarrow>
          s\<lparr>lastError := Some msg,
            progress := map_option (\<lambda>p. p\<lparr>p_stage := ''error'', p_ts := now\<rparr>) (progress s),
            running := False\<rparr>)"

text \<open>\<open>scheduleNext(fromTs)\<close>.\<close>

definition scheduleNext :: "int \<Rightarrow> controller \<Rightarrow> controller" where
  "scheduleNext fromTs s =
     s\<lparr>nextRunTs := (if intervalMin s \<noteq> 0 then fromTs + intervalMin s * 60 * 1000 else 0)\<rparr>"

text \<open>\<open>snapshot()\<close>: prunes the history, then projects the state.\<close>

definition snapshot :: "int \<Rightarrow> controller \<Rightarrow> snapshot_view \<times> controller" where
  "snapshot now s =
     (let s1 = pruneHistory now s
      in (\<lparr>snap_runner = runnerName s1,
           snap_running = running s1,
           snap_interval_min = intervalMin s1,
           snap_next_run_ts = nextRunTs s1,
           snap_last = lastRun s1,
           snap_last_error = lastError s1,
           snap_progress = (if running s1 then progress s1 else None),
           snap_max_down_mbps = maxDown s1,
           snap_max_up_mbps = maxUp s1,
           snap_history_24h = history s1\<rparr>, s1))"

text \<open>\<open>tick()\<close>.\<close>

definition tick :: "int \<Rightarrow> controller \<Rightarrow> effect list \<times> controller" where
  "tick now s =
     (let detect = (if runnerInfo s = None then [DetectRunner] else [])
      in if intervalMin s = 0 then (detect, s)
         else if rateLimitUntil s \<noteq> 0 \<and> now < rateLimitUntil s then (detect, holdNextRun s)
         else (let s1 = (if nextRunTs s = 0 then scheduleNext now s else s)
               in if now \<ge> nextRunTs s1 \<and> \<not> running s1
                  then (let (effs, s2) = doRun now (scheduleNext now s1) in (detect @ effs, s2))
                  else (detect, s1)))"

text \<open>\<open>runNow()\<close>.\<close>

definition runNow :: "int \<Rightarrow> controller \<Rightarrow> snapshot_view \<times> effect list \<times> controller" where
  "runNow now s =
     (if rateLimitUntil s \<noteq> 0 \<and> now < rateLimitUntil s
      then (let left = rateLimitUntil s - now;
                s1 = holdNextRun
                       (s\<lparr>lastError := Some (''rate_limited: retry in '' @ fmtMin (int_val left))\<rparr>);
                (snap, s2) = snapshot now s1
            in (snap, [], s2))
      else (let (effs, s1) = (if \<not> running s then doRun now s else ([], s));
                (snap, s2) = snapshot now s1
            in (snap, effs, s2)))"

text \<open>\<open>setIntervalMin(min)\<close>.\<close>

definition setIntervalMin :: "jsval \<Rightarrow> int \<Rightarrow> controller \<Rightarrow> snapshot_view \<times> controller" where
  "setIntervalMin m now s =
     snapshot now (scheduleNext now (s\<lparr>intervalMin := clampInt m 0 (60 * 24)\<rparr>))"

text \<open>
  \<open>createSpeedtestController\<close>: the state after construction, from what \<open>readState\<close>
  returned (\<open>None\<close> for a missing or corrupt file), the options \<open>defaultIntervalMin\<close> and
  \<open>runOnStart\<close>, and the clock.
\<close>

definition createSpeedtestController ::
  "loaded_state option \<Rightarrow> jsval \<Rightarrow> bool \<Rightarrow> int \<Rightarrow> effect list \<times> controller" where
  "createSpeedtestController loaded defaultIntervalMin runOnStart now =
     (let s0 = \<lparr>intervalMin =
                   clampInt (case loaded of
                               None \<Rightarrow> defaultIntervalMin
                             | Some l \<Rightarrow> (case l_interval_min l of
                                            None \<Rightarrow> defaultIntervalMin
                                          | Some q \<Rightarrow> JNum (Fin q))) 0 (60 * 24),
                 rateLimitUntil = (case loaded of None \<Rightarrow> 0 | Some l \<Rightarrow> l_rate_limit_until l),
                 rateLimitCount = (case loaded of None \<Rightarrow> 0 | Some l \<Rightarrow> l_rate_limit_count l),
                 maxDown = (case loaded of None \<Rightarrow> 0 | Some l \<Rightarrow> l_max_down_mbps l),
                 maxUp = (case loaded of None \<Rightarrow> 0 | Some l \<Rightarrow> l_max_up_mbps l),
                 nextRunTs = 0,
                 history = (case loaded of None \<Rightarrow> [] | Some l \<Rightarrow> l_history l),
                 runnerInfo = None,
                 runnerName = None,
                 progress = None,
                 running = False,
                 lastRun = None,
                 lastError = None\<rparr>;
          s1 = scheduleNext now s0
      in if runOnStart \<and> intervalMin s1 > 0
         then (if rateLimitUntil s1 = 0 \<or> now \<ge> rateLimitUntil s1
               then (let (effs, s2) = doRun now s1 in (effs, scheduleNext now s2))
               else ([], s1\<lparr>nextRunTs := max (int_or (nextRunTs s1) 0) (rateLimitUntil s1)\<rparr>))
         else ([], s1))"

section \<open>Auxiliary definitions for the statements\<close>

text \<open>The value the bucket is computed from.\<close>

definition gauge_input :: "jsval \<Rightarrow> rat \<Rightarrow> rat" where
  "gauge_input mbps fallback =
     (case js_Number mbps of Fin q \<Rightarrow> if q > 0 then q else fallback | _ \<Rightarrow> fallback)"

text \<open>A controller state with one stale and one recent history entry, for the examples.\<close>

definition example_state :: controller where
  "example_state =
     \<lparr>intervalMin = 0, rateLimitUntil = 0, rateLimitCount = 0, maxDown = 0, maxUp = 0,
      nextRunTs = 0,
      history = [\<lparr>h_ts = 1000, h_runner = ''ookla'', h_ping_ms = None, h_jitter_ms = None,
                  h_down_mbps = None, h_up_mbps = None, h_note = []\<rparr>,
                 \<lparr>h_ts = 90000000, h_runner = ''ookla'', h_ping_ms = None, h_jitter_ms = None,
                  h_down_mbps = Some 137, h_up_mbps = Some 20, h_note = []\<rparr>],
      runnerInfo = None, runnerName = None, progress = None, running = False,
      lastRun = None, lastError = None\<rparr>"

text \<open>The state \<open>runNow()\<close> takes its snapshot of when it is called inside a rate-limit window.\<close>

definition retry_note :: "int \<Rightarrow> controller \<Rightarrow> controller" where
  "retry_note now s =
     holdNextRun (s\<lparr>lastError :=
        Some (''rate_limited: retry in '' @ fmtMin (int_val (rateLimitUntil s - now)))\<rparr>)"

text \<open>The test \<open>rateLimitUntil && now < rateLimitUntil\<close> of \<open>tick\<close> and \<open>runNow\<close>.\<close>

definition in_window :: "int \<Rightarrow> controller \<Rightarrow> bool" where
  "in_window now s = (rateLimitUntil s \<noteq> 0 \<and> now < rateLimitUntil s)"

text \<open>
  A controller constructed at time 1000000 from a persisted state with \<open>interval_min = 0\<close>
  and a rate-limit window that lasts until 2800000.
\<close>

definition started_in_window :: controller where
  "started_in_window =
     snd (createSpeedtestController
            (Some \<lparr>l_interval_min = Some 0, l_rate_limit_until = 2800000, l_rate_limit_count = 1,
                   l_max_down_mbps = 250, l_max_up_mbps = 50, l_history = []\<rparr>)
            (JNum (Fin 0)) True 1000000)"

text \<open>The throughput a completed run is taken to have observed.\<close>

definition observed_down :: "controller \<Rightarrow> run_result \<Rightarrow> rat option" where
  "observed_down s res = res_down_mbps (final_result (progress s) res)"

definition observed_up :: "controller \<Rightarrow> run_result \<Rightarrow> rat option" where
  "observed_up s res = res_up_mbps (final_result (progress s) res)"

text \<open>Noise without an opening brace or bracket.\<close>

definition no_opener :: "string \<Rightarrow> bool" where
  "no_opener s = (\<forall>c \<in> set s. c \<noteq> CHR ''{'' \<and> c \<noteq> CHR ''['')"

text \<open>
  The controller states that can arise, with the time of the latest event: construction,
  then the public operations, the progress callback and the completion of a run (both
  only while a run is in flight) and the completion of runner detection, at times that do
  not decrease.
\<close>

inductive reach :: "int \<Rightarrow> controller \<Rightarrow> bool" where
  created: "0 \<le> now \<Longrightarrow> reach now (snd (createSpeedtestController loaded dflt runOnStart now))"
| ticked: "reach t s \<Longrightarrow> t \<le> now \<Longrightarrow> reach now (snd (tick now s))"
| ran_now: "reach t s \<Longrightarrow> t \<le> now \<Longrightarrow> reach now (snd (snd (runNow now s)))"
| interval_set: "reach t s \<Longrightarrow> t \<le> now \<Longrightarrow> reach now (snd (setIntervalMin m now s))"
| snapshot_taken: "reach t s \<Longrightarrow> t \<le> now \<Longrightarrow> reach now (snd (snapshot now s))"
| progressed: "reach t s \<Longrightarrow> t \<le> now \<Longrightarrow> running s \<Longrightarrow> reach now (onProgress p now s)"
| detected: "reach t s \<Longrightarrow> t \<le> now \<Longrightarrow> reach now (ensureRunner_resume det s)"
| run_ended: "reach t s \<Longrightarrow> t \<le> now \<Longrightarrow> running s \<Longrightarrow> reach now (doRun_resume out now s)"

text \<open>A freshly constructed controller on which \<open>runNow()\<close> has started a run.\<close>

definition run_in_flight :: controller where
  "run_in_flight =
     snd (snd (runNow 2000 (snd (createSpeedtestController None (JNum (Fin 0)) False 1000))))"

text \<open>
  Two results of the primary runner, the state after the run in flight has completed with
  the first, and the state after a second \<open>runNow()\<close> has completed with the other.
\<close>

definition run_800 :: run_result where
  "run_800 = \<lparr>res_runner = ''ookla'', res_ping_ms = Some 12, res_jitter_ms = Some 1,
              res_down_mbps = Some 800, res_up_mbps = Some 40, res_note = None,
              res_ookla_exit = None, res_ookla_rate_limited = False\<rparr>"

definition run_100 :: run_result where
  "run_100 = \<lparr>res_runner = ''ookla'', res_ping_ms = Some 12, res_jitter_ms = Some 1,
              res_down_mbps = Some 100, res_up_mbps = Some 20, res_note = None,
              res_ookla_exit = None, res_ookla_rate_limited = False\<rparr>"

definition after_first_run :: controller where
  "after_first_run = doRun_resume (Resolved run_800) 3000 run_in_flight"

definition after_second_run :: controller where
  "after_second_run =
     doRun_resume (Resolved run_100) 5000 (snd (snd (runNow 4000 after_first_run)))"

subsection \<open>Top-level blocks of a text\<close>

text \<open>
  The statements about salvage describe a text by its bracket structure, independently of
  the scanner. Outside a string literal a double quote opens a string; inside one, a
  backslash hides the next character and a double quote closes the string. Brackets
  inside a string do not count; \<open>{\<close> and \<open>[\<close> open, \<open>}\<close> and \<open>]\<close> close, and a
  closing character closes whatever was opened last (the scanner does not tell braces
  from brackets).
\<close>

definition is_opener :: "char \<Rightarrow> bool" where
  "is_opener c = (c = CHR ''{'' \<or> c = CHR ''['')"

definition is_closer :: "char \<Rightarrow> bool" where
  "is_closer c = (c = CHR ''}'' \<or> c = CHR '']'')"

text \<open>
  \<open>str_tail cs rest\<close>: \<open>cs\<close>, read from just after an opening double quote, closes its
  string and leaves \<open>rest\<close>. \<open>open_str cs\<close>: the string is still open when \<open>cs\<close> ends.
\<close>

inductive str_tail :: "string \<Rightarrow> string \<Rightarrow> bool" where
  closed: "str_tail (CHR 0x22 # rest) rest"
| escaped: "str_tail cs rest \<Longrightarrow> str_tail (CHR 0x5C # e # cs) rest"
| char: "c \<noteq> CHR 0x22 \<Longrightarrow> c \<noteq> CHR 0x5C \<Longrightarrow> str_tail cs rest \<Longrightarrow> str_tail (c # cs) rest"

inductive open_str :: "string \<Rightarrow> bool" where
  ended: "open_str []"
| cut: "open_str [CHR 0x5C]"
| escaped: "open_str cs \<Longrightarrow> open_str (CHR 0x5C # e # cs)"
| char: "c \<noteq> CHR 0x22 \<Longrightarrow> c \<noteq> CHR 0x5C \<Longrightarrow> open_str cs \<Longrightarrow> open_str (c # cs)"

text \<open>
  \<open>items cs rest\<close>: \<open>cs\<close>, read from just after an opening character, reaches the
  matching closing character and leaves \<open>rest\<close>. \<open>open_items cs\<close>: \<open>cs\<close> ends before the
  matching closing character. A block is bracket-balanced when it is an opening
  character followed by items that close exactly at its end.
\<close>

inductive items :: "string \<Rightarrow> string \<Rightarrow> bool" where
  close: "is_closer c \<Longrightarrow> items (c # rest) rest"
| plain: "\<not> is_opener c \<Longrightarrow> \<not> is_closer c \<Longrightarrow> c \<noteq> CHR 0x22 \<Longrightarrow> items cs rest \<Longrightarrow>
            items (c # cs) rest"
| str: "str_tail cs mid \<Longrightarrow> items mid rest \<Longrightarrow> items (CHR 0x22 # cs) rest"
| nest: "is_opener c \<Longrightarrow> items cs mid \<Longrightarrow> items mid rest \<Longrightarrow> items (c # cs) rest"

inductive open_items :: "string \<Rightarrow> bool" where
  ended: "open_items []"
| plain: "\<not> is_opener c \<Longrightarrow> \<not> is_closer c \<Longrightarrow> c \<noteq> CHR 0x22 \<Longrightarrow> open_items cs \<Longrightarrow>
            open_items (c # cs)"
| str_open: "open_str cs \<Longrightarrow> open_items (CHR 0x22 # cs)"
| str_closed: "str_tail cs mid \<Longrightarrow> open_items mid \<Longrightarrow> open_items (CHR 0x22 # cs)"
| nest_open: "is_opener c \<Longrightarrow> open_items cs \<Longrightarrow> open_items (c # cs)"
| nest_closed: "is_opener c \<Longrightarrow> items cs mid \<Longrightarrow> open_items mid \<Longrightarrow> open_items (c # cs)"

definition balanced_block :: "string \<Rightarrow> bool" where
  "balanced_block b = (\<exists>c cs. b = c # cs \<and> is_opener c \<and> items cs [])"

text \<open>
  \<open>top_blocks t bs\<close>: \<open>bs\<close> are the top-level blocks of \<open>t\<close>, in order. Reading from the
  left, the text up to the first opening character is noise; at that character either a
  bracket-balanced block starts, and the reading goes on after the block, or the
  character is never closed (a stray opener), and the reading goes on just after it.
\<close>

inductive top_blocks :: "string \<Rightarrow> string list \<Rightarrow> bool" where
  noise: "no_opener t \<Longrightarrow> top_blocks t []"
| block: "no_opener n \<Longrightarrow> balanced_block b \<Longrightarrow> top_blocks rest bs \<Longrightarrow>
            top_blocks (n @ b @ rest) (b # bs)"
| stray: "no_opener n \<Longrightarrow> is_opener c \<Longrightarrow> open_items rest \<Longrightarrow> top_blocks rest bs \<Longrightarrow>
            top_blocks (n @ c # rest) bs"

text \<open>
  The score the second loop of \<open>extractBestJsonBlock\<close> gives a block: that of the
  candidate \<open>pickBestSpeedtestResult(obj0) || obj0\<close>; \<open>- 1\<close>, the initial \<open>bestScore\<close>,
  stands for a block that \<open>JSON.parse\<close> rejects.
\<close>

definition block_score :: "(string \<Rightarrow> json option) \<Rightarrow> string \<Rightarrow> int" where
  "block_score parse b =
     (case parse b of
        None \<Rightarrow> - 1
      | Some obj0 \<Rightarrow> scoreCandidate (js_or (pickBestSpeedtestResult obj0) obj0))"

text \<open>
  A recogniser for the grammar above, to evaluate it on concrete texts: \<open>skip_str\<close>
  returns what follows the closing double quote, \<open>skip_items\<close> what follows the matching
  closing character, \<open>Unclosed\<close> when the text ends first; its first argument bounds the
  recursion.
\<close>

fun skip_str :: "string \<Rightarrow> string option" where
  "skip_str [] = None"
| "skip_str [c] = (if c = CHR 0x22 then Some [] else None)"
| "skip_str (c # e # cs) =
     (if c = CHR 0x22 then Some (e # cs)
      else if c = CHR 0x5C then skip_str cs
      else skip_str (e # cs))"

datatype scan_end = Closed string | Unclosed | Undecided

fun skip_items :: "nat \<Rightarrow> string \<Rightarrow> scan_end" where
  "skip_items 0 cs = Undecided"
| "skip_items (Suc n) [] = Unclosed"
| "skip_items (Suc n) (c # cs) =
     (if is_closer c then Closed cs
      else if is_opener c then
        (case skip_items n cs of Closed mid \<Rightarrow> skip_items n mid | e \<Rightarrow> e)
      else if c = CHR 0x22 then
        (case skip_str cs of None \<Rightarrow> Unclosed | Some mid \<Rightarrow> skip_items n mid)
      else skip_items n cs)"

definition check_block :: "string \<Rightarrow> bool" where
  "check_block b =
     (case b of [] \<Rightarrow> False
      | c # cs \<Rightarrow> is_opener c \<and> skip_items (Suc (length cs)) cs = Closed [])"

definition check_open :: "string \<Rightarrow> bool" where
  "check_open cs = (skip_items (Suc (length cs)) cs = Unclosed)"

section \<open>Properties: helper facts\<close>

lemma int_val_num [simp]: "js_Number (int_val c) = Fin (of_int c)"
  by (simp add: int_val_def)

lemma backoff_int:
  "computeRateLimitBackoffMs (int_val c) = backoff_steps ! nat (min 4 (max 1 c - 1))"
  by (cases "c = 0")
     (simp_all add: computeRateLimitBackoffMs_def num_or_def backoff_steps_def Let_def)

subsection \<open>Reachable states\<close>

lemma doRun_window [simp]:
  "rateLimitUntil (snd (doRun now s)) = rateLimitUntil s"
  by (simp add: doRun_def)

lemma doRun_resume_not_running [simp]: "\<not> running (doRun_resume out now s)"
  by (cases out) (simp_all add: doRun_resume_def Let_def)

lemma reach_running_outside_window:
  "reach t s \<Longrightarrow> running s \<longrightarrow> rateLimitUntil s = 0 \<or> rateLimitUntil s \<le> t"
proof (induction rule: reach.induct)
  case (created now loaded dflt runOnStart)
  then show ?case
    by (auto simp add: createSpeedtestController_def Let_def scheduleNext_def doRun_def
        split: if_splits prod.splits)
next
  case (ticked t s now)
  then show ?case
    by (auto simp add: tick_def Let_def scheduleNext_def doRun_def holdNextRun_def
        split: if_splits prod.splits)
next
  case (ran_now t s now)
  then show ?case
    by (auto simp add: runNow_def Let_def doRun_def holdNextRun_def snapshot_def pruneHistory_def
        split: if_splits prod.splits)
next
  case (interval_set t s now m)
  then show ?case
    by (auto simp add: setIntervalMin_def scheduleNext_def snapshot_def pruneHistory_def Let_def)
next
  case (snapshot_taken t s now)
  then show ?case by (auto simp add: snapshot_def pruneHistory_def Let_def)
next
  case (progressed t s now p)
  then show ?case by (auto simp add: onProgress_def Let_def)
next
  case (detected t s now det)
  then show ?case by (auto simp add: ensureRunner_resume_def)
next
  case (run_ended t s now out)
  then show ?case by (simp add: doRun_resume_not_running)
qed

lemma reach_running_not_in_window:
  "reach t s \<Longrightarrow> t \<le> now \<Longrightarrow> running s \<Longrightarrow> \<not> in_window now s"
  using reach_running_outside_window [of t s] by (auto simp add: in_window_def)

lemma started_in_window_eq:
  "started_in_window =
     \<lparr>intervalMin = 0, rateLimitUntil = 2800000, rateLimitCount = 1, maxDown = 250, maxUp = 50,
      nextRunTs = 0, history = [], runnerInfo = None, runnerName = None, progress = None,
      running = False, lastRun = None, lastError = None\<rparr>"
  by (simp add: started_in_window_def createSpeedtestController_def clampInt_def scheduleNext_def
      Let_def)

lemma started_in_window_reach: "reach 1000000 started_in_window"
  unfolding started_in_window_def by (rule reach.created) simp

section \<open>Properties: the claims\<close>

subsection \<open>The backoff table\<close>

text \<open>
  C6. For a hit count \<open>c \<ge> 1\<close> the backoff window is the \<open>c\<close>-th entry of the table
  30 min, 1 h, 2 h, 4 h, 6 h for \<open>c \<le> 5\<close> and 6 h for every \<open>c \<ge> 5\<close>; it increases
  strictly over the counts 1 to 5 and is constant from 5 on.
\<close>

theorem computeRateLimitBackoffMs_table:
  "computeRateLimitBackoffMs (int_val 1) = 30 * 60 * 1000 \<and>
   computeRateLimitBackoffMs (int_val 2) = 60 * 60 * 1000 \<and>
   computeRateLimitBackoffMs (int_val 3) = 2 * 60 * 60 * 1000 \<and>
   computeRateLimitBackoffMs (int_val 4) = 4 * 60 * 60 * 1000 \<and>
   (\<forall>c. 5 \<le> c \<longrightarrow> computeRateLimitBackoffMs (int_val c) = 6 * 60 * 60 * 1000) \<and>
   (\<forall>c. 1 \<le> c \<and> c < 5 \<longrightarrow>
        computeRateLimitBackoffMs (int_val c) < computeRateLimitBackoffMs (int_val (c + 1))) \<and>
   (\<forall>c. 5 \<le> c \<longrightarrow>
        computeRateLimitBackoffMs (int_val (c + 1)) = computeRateLimitBackoffMs (int_val c))"
proof -
  have small: "computeRateLimitBackoffMs (int_val 1) = 30 * 60 * 1000"
    "computeRateLimitBackoffMs (int_val 2) = 60 * 60 * 1000"
    "computeRateLimitBackoffMs (int_val 3) = 2 * 60 * 60 * 1000"
    "computeRateLimitBackoffMs (int_val 4) = 4 * 60 * 60 * 1000"
    by (simp_all add: backoff_int backoff_steps_def)
  have big: "computeRateLimitBackoffMs (int_val c) = 6 * 60 * 60 * 1000" if "5 \<le> c" for c
  proof -
    from that have "nat (min 4 (max 1 c - 1)) = 4" by simp
    then show ?thesis by (simp add: backoff_int backoff_steps_def)
  qed
  have incr: "computeRateLimitBackoffMs (int_val c) < computeRateLimitBackoffMs (int_val (c + 1))"
    if "1 \<le> c \<and> c < 5" for c
  proof -
    from that consider "c = 1" | "c = 2" | "c = 3" | "c = 4" by linarith
    then show ?thesis
      by cases (use small big [of 5] in simp_all)
  qed
  show ?thesis using small big incr by simp
qed

theorem computeRateLimitBackoffMs_table_witness:
  "computeRateLimitBackoffMs (int_val 6) = 21600000 \<and>
   computeRateLimitBackoffMs (int_val 3) < computeRateLimitBackoffMs (int_val 4) \<and>
   computeRateLimitBackoffMs (int_val 8) = computeRateLimitBackoffMs (int_val 7)"
  using computeRateLimitBackoffMs_table by simp

subsection \<open>Gauge buckets\<close>

lemma find_gauge:
  "find (\<lambda>s. x \<le> of_int s) gauge_steps =
     (if x \<le> 25 then Some 25 else if x \<le> 50 then Some 50 else if x \<le> 75 then Some 75
      else if x \<le> 100 then Some 100 else if x \<le> 150 then Some 150 else if x \<le> 200 then Some 200
      else if x \<le> 250 then Some 250 else if x \<le> 300 then Some 300 else if x \<le> 400 then Some 400
      else if x \<le> 500 then Some 500 else if x \<le> 750 then Some 750 else if x \<le> 1000 then Some 1000
      else if x \<le> 1500 then Some 1500 else if x \<le> 2000 then Some 2000
      else if x \<le> 3000 then Some 3000 else if x \<le> 5000 then Some 5000 else None)"
  for x :: rat
  by (simp add: gauge_steps_def)

lemma bucket_alt:
  "niceGaugeMaxBucket mbps fb =
     (case find (\<lambda>s. gauge_input mbps fb \<le> of_int s) gauge_steps of
        Some s \<Rightarrow> s | None \<Rightarrow> \<lceil>gauge_input mbps fb / 1000\<rceil> * 1000)"
  by (simp only: niceGaugeMaxBucket_def gauge_input_def Let_def)

lemma bucket_ge: "gauge_input mbps fb \<le> of_int (niceGaugeMaxBucket mbps fb)"
proof -
  have "x \<le> of_int (\<lceil>x / 1000\<rceil> * 1000)" for x :: rat
  proof -
    have "x / 1000 \<le> of_int \<lceil>x / 1000\<rceil>" by (rule le_of_int_ceiling)
    then have "x / 1000 * 1000 \<le> of_int \<lceil>x / 1000\<rceil> * 1000"
      by (intro mult_right_mono) simp_all
    then show ?thesis by simp
  qed
  then show ?thesis
    unfolding bucket_alt find_gauge by (simp split: if_splits)
qed

lemma bucket_pos: "0 < fb \<Longrightarrow> 0 < niceGaugeMaxBucket mbps fb"
proof -
  assume "0 < fb"
  then have "0 < gauge_input mbps fb"
    by (simp add: gauge_input_def split: jsnum.splits)
  with bucket_ge [of mbps fb] have "(0::rat) < of_int (niceGaugeMaxBucket mbps fb)" by linarith
  then show ?thesis by simp
qed

lemma bucket_in_table:
  "gauge_input mbps fb \<le> 5000 \<Longrightarrow> niceGaugeMaxBucket mbps fb \<in> set gauge_steps"
  unfolding bucket_alt find_gauge by (simp add: gauge_steps_def split: if_splits)

lemma bucket_least:
  "t \<in> set gauge_steps \<Longrightarrow> gauge_input mbps fb \<le> of_int t \<Longrightarrow> niceGaugeMaxBucket mbps fb \<le> t"
  unfolding bucket_alt find_gauge by (auto simp add: gauge_steps_def split: if_splits)

text \<open>
  C9. An observed value of 137 Mbps gives the bucket 150 whatever the fallback; a value of
  0 or a non-finite value gives the fallback default: 250 with the download fallback, 50
  with the upload fallback.
\<close>

theorem niceGaugeMaxBucket_scenario:
  "niceGaugeMaxBucket (JNum (Fin 137)) fb = 150 \<and>
   (\<forall>v. js_Number v = Fin 0 \<or> \<not> isFinite (js_Number v) \<longrightarrow>
        niceGaugeMaxBucket v 250 = 250 \<and> niceGaugeMaxBucket v 50 = 50)"
proof -
  have a: "niceGaugeMaxBucket (JNum (Fin 137)) fb = 150"
    by (simp add: bucket_alt gauge_input_def gauge_steps_def)
  have b: "niceGaugeMaxBucket v 250 = 250 \<and> niceGaugeMaxBucket v 50 = 50"
    if "js_Number v = Fin 0 \<or> \<not> isFinite (js_Number v)" for v
    using that by (cases "js_Number v") (simp_all add: bucket_alt gauge_input_def gauge_steps_def)
  show ?thesis using a b by blast
qed

theorem niceGaugeMaxBucket_scenario_witness:
  "niceGaugeMaxBucket (JNum (Fin 137)) 250 = 150 \<and>
   niceGaugeMaxBucket (JNum (Fin 0)) 250 = 250 \<and> niceGaugeMaxBucket (JNum (Fin 0)) 50 = 50 \<and>
   niceGaugeMaxBucket (JNum NaN) 250 = 250 \<and> niceGaugeMaxBucket (JNum PosInf) 50 = 50 \<and>
   niceGaugeMaxBucket JNull 250 = 250 \<and> niceGaugeMaxBucket JUndefined 50 = 50"
  using niceGaugeMaxBucket_scenario [of 250] by simp

subsection \<open>Setting the interval\<close>

lemma snapshot_fields [simp]:
  "snap_interval_min (fst (snapshot now s)) = intervalMin s"
  "snap_next_run_ts (fst (snapshot now s)) = nextRunTs s"
  "snap_last_error (fst (snapshot now s)) = lastError s"
  "snap_running (fst (snapshot now s)) = running s"
  "snap_max_down_mbps (fst (snapshot now s)) = maxDown s"
  "snap_max_up_mbps (fst (snapshot now s)) = maxUp s"
  "snap_history_24h (fst (snapshot now s)) = history (pruneHistory now s)"
  "snd (snapshot now s) = pruneHistory now s"
  by (simp_all add: snapshot_def pruneHistory_def Let_def)

lemma pruneHistory_fields [simp]:
  "intervalMin (pruneHistory now s) = intervalMin s"
  "rateLimitUntil (pruneHistory now s) = rateLimitUntil s"
  "rateLimitCount (pruneHistory now s) = rateLimitCount s"
  "nextRunTs (pruneHistory now s) = nextRunTs s"
  "running (pruneHistory now s) = running s"
  "progress (pruneHistory now s) = progress s"
  "lastError (pruneHistory now s) = lastError s"
  "lastRun (pruneHistory now s) = lastRun s"
  "maxDown (pruneHistory now s) = maxDown s"
  "maxUp (pruneHistory now s) = maxUp s"
  "runnerName (pruneHistory now s) = runnerName s"
  "runnerInfo (pruneHistory now s) = runnerInfo s"
  by (simp_all add: pruneHistory_def Let_def)

text \<open>
  C10. For an argument whose numeric reading is not finite (\<open>NaN\<close>, \<open>undefined\<close>, a
  non-numeric string) \<open>setIntervalMin\<close> sets \<open>interval_min\<close> to 0, which disables
  scheduling, and returns a snapshot; for a finite argument it sets \<open>interval_min\<close> to
  the floor of the argument clamped into 0..1440. The operation is a total function: no
  input makes it throw.
\<close>

theorem setIntervalMin_clamps:
  "(\<not> isFinite (js_Number m) \<longrightarrow>
      intervalMin (snd (setIntervalMin m now s)) = 0 \<and>
      snap_interval_min (fst (setIntervalMin m now s)) = 0 \<and>
      nextRunTs (snd (setIntervalMin m now s)) = 0) \<and>
   (js_Number m = Fin q \<longrightarrow>
      intervalMin (snd (setIntervalMin m now s)) = max 0 (min 1440 \<lfloor>q\<rfloor>) \<and>
      snap_interval_min (fst (setIntervalMin m now s)) = max 0 (min 1440 \<lfloor>q\<rfloor>)) \<and>
   0 \<le> intervalMin (snd (setIntervalMin m now s)) \<and>
   intervalMin (snd (setIntervalMin m now s)) \<le> 1440"
  by (cases "js_Number m")
     (simp_all add: setIntervalMin_def scheduleNext_def clampInt_def Let_def)

lemma floor_half_15: "\<lfloor>15 / 2 :: rat\<rfloor> = 7"
  by linarith

theorem setIntervalMin_clamps_witness:
  "intervalMin (snd (setIntervalMin JUndefined 1000 example_state)) = 0 \<and>
   intervalMin (snd (setIntervalMin (JNum NaN) 1000 example_state)) = 0 \<and>
   intervalMin (snd (setIntervalMin (JStr ''soon'' NaN) 1000 example_state)) = 0 \<and>
   intervalMin (snd (setIntervalMin (JNum (Fin (15 / 2))) 1000 example_state)) = 7 \<and>
   intervalMin (snd (setIntervalMin (JNum (Fin 5000)) 1000 example_state)) = 1440 \<and>
   intervalMin (snd (setIntervalMin (JNum (Fin (- 3))) 1000 example_state)) = 0"
  using setIntervalMin_clamps [of JUndefined 1000 example_state 0]
    setIntervalMin_clamps [of "JNum NaN" 1000 example_state 0]
    setIntervalMin_clamps [of "JStr ''soon'' NaN" 1000 example_state 0]
    setIntervalMin_clamps [of "JNum (Fin (15 / 2))" 1000 example_state "15 / 2"]
    setIntervalMin_clamps [of "JNum (Fin 5000)" 1000 example_state 5000]
    setIntervalMin_clamps [of "JNum (Fin (- 3))" 1000 example_state "- 3"]
    floor_half_15
  by simp

subsection \<open>History pruning\<close>

lemma int_or_0 [simp]: "int_or a 0 = a"
  by (simp add: int_or_def)

lemma pruneHistory_recent:
  "e \<in> set (history (pruneHistory now s)) \<Longrightarrow> now - HISTORY_24H_MS \<le> h_ts e"
  by (auto simp add: pruneHistory_def Let_def split: if_splits dest: in_set_dropD)

lemma pruneHistory_length: "length (history (pruneHistory now s)) \<le> 5000"
  by (simp add: pruneHistory_def Let_def)

text \<open>
  C8. The \<open>history_24h\<close> a \<open>snapshot()\<close> call returns has no entry whose \<open>ts\<close> is more
  than 24 hours before the current time, and after a prune the history never has more
  than 5000 entries.
\<close>

theorem snapshot_history_window:
  "(\<forall>e \<in> set (snap_history_24h (fst (snapshot now s))). now - 24 * 60 * 60 * 1000 \<le> h_ts e) \<and>
   length (snap_history_24h (fst (snapshot now s))) \<le> 5000 \<and>
   length (history (pruneHistory now s)) \<le> 5000 \<and>
   history (snd (snapshot now s)) = snap_history_24h (fst (snapshot now s))"
  using pruneHistory_recent [of _ now s] pruneHistory_length [of now s]
  by (simp add: HISTORY_24H_MS_def)

theorem snapshot_history_window_witness:
  "snap_history_24h (fst (snapshot 100000000 example_state)) =
     [\<lparr>h_ts = 90000000, h_runner = ''ookla'', h_ping_ms = None, h_jitter_ms = None,
       h_down_mbps = Some 137, h_up_mbps = Some 20, h_note = []\<rparr>] \<and>
   length (snap_history_24h (fst (snapshot 100000000 example_state))) \<le> 5000"
  using snapshot_history_window [of 100000000 example_state]
  by (simp add: example_state_def pruneHistory_def HISTORY_24H_MS_def int_or_def Let_def)

subsection \<open>An immediate run inside a rate-limit window\<close>

lemma holdNextRun_fields [simp]:
  "intervalMin (holdNextRun s) = intervalMin s"
  "rateLimitUntil (holdNextRun s) = rateLimitUntil s"
  "rateLimitCount (holdNextRun s) = rateLimitCount s"
  "running (holdNextRun s) = running s"
  "progress (holdNextRun s) = progress s"
  "lastError (holdNextRun s) = lastError s"
  "history (holdNextRun s) = history s"
  "maxDown (holdNextRun s) = maxDown s"
  "maxUp (holdNextRun s) = maxUp s"
  by (simp_all add: holdNextRun_def)

lemma holdNextRun_ge: "0 < rateLimitUntil s \<Longrightarrow> rateLimitUntil s \<le> nextRunTs (holdNextRun s)"
  by (simp add: holdNextRun_def)

lemma runNow_in_window:
  assumes "rateLimitUntil s \<noteq> 0" "now < rateLimitUntil s"
  shows "runNow now s =
     (fst (snapshot now (holdNextRun (s\<lparr>lastError :=
              Some (''rate_limited: retry in '' @ fmtMin (int_val (rateLimitUntil s - now)))\<rparr>))),
      [],
      pruneHistory now (holdNextRun (s\<lparr>lastError :=
              Some (''rate_limited: retry in '' @ fmtMin (int_val (rateLimitUntil s - now)))\<rparr>)))"
  using assms by (simp add: runNow_def Let_def split_beta)

lemma fmtMin_int:
  "0 < ms \<Longrightarrow> fmtMin (int_val ms) = nat_to_string (nat \<lceil>of_int ms / (60000::rat)\<rceil>) @ ''m''"
  by (simp add: fmtMin_def num_or_def max_def)

text \<open>
  C7. Inside a rate-limit window (\<open>now < rate_limit_until\<close>, the clock being
  non-negative) \<open>runNow()\<close> launches nothing, leaves \<open>running\<close> and the progress as they
  were, and returns a snapshot whose \<open>last_error\<close> is the "retry in" message with the
  remaining wait in minutes, rounded up. In the states the controller can reach, \<open>running\<close>
  is false inside a window, and stays false.
\<close>

theorem runNow_rate_limited:
  assumes "0 \<le> now" and "now < rateLimitUntil s"
  shows "fst (snd (runNow now s)) = [] \<and>
         running (snd (snd (runNow now s))) = running s \<and>
         snap_running (fst (runNow now s)) = running s \<and>
         progress (snd (snd (runNow now s))) = progress s \<and>
         snap_last_error (fst (runNow now s)) =
           Some (''rate_limited: retry in '' @ fmtMin (int_val (rateLimitUntil s - now))) \<and>
         lastError (snd (snd (runNow now s))) = snap_last_error (fst (runNow now s)) \<and>
         fmtMin (int_val (rateLimitUntil s - now)) =
           nat_to_string (nat \<lceil>of_int (rateLimitUntil s - now) / (60000::rat)\<rceil>) @ ''m'' \<and>
         (\<exists>msg. snap_last_error (fst (runNow now s)) = Some msg \<and> sublist ''retry in'' msg) \<and>
         (reach t s \<and> t \<le> now \<longrightarrow>
            \<not> running s \<and> \<not> running (snd (snd (runNow now s))) \<and>
            \<not> snap_running (fst (runNow now s)))"
proof -
  from assms have nz: "rateLimitUntil s \<noteq> 0" and pos: "0 < rateLimitUntil s - now" by simp_all
  have idle: "\<not> running s" if "reach t s \<and> t \<le> now"
    using that nz assms(2) reach_running_not_in_window [of t s now]
    by (auto simp add: in_window_def)
  have sub: "sublist ''retry in'' (''rate_limited: retry in '' @ m)" for m
  proof -
    have "''rate_limited: retry in '' @ m = ''rate_limited: '' @ ''retry in'' @ ('' '' @ m)" by simp
    then show ?thesis unfolding sublist_def by blast
  qed
  show ?thesis
    using runNow_in_window [OF nz assms(2)] fmtMin_int [OF pos] sub idle by auto
qed

theorem runNow_rate_limited_witness:
  "snap_last_error (fst (runNow 1000000 started_in_window)) = Some ''rate_limited: retry in 30m'' \<and>
   fst (snd (runNow 1000000 started_in_window)) = [] \<and>
   \<not> running (snd (snd (runNow 1000000 started_in_window))) \<and>
   \<not> snap_running (fst (runNow 1000000 started_in_window))"
  using runNow_rate_limited [of 1000000 started_in_window 1000000] started_in_window_reach
  by (simp add: started_in_window_eq digit_char_def)

subsection \<open>Single flight\<close>

lemma runNow_running:
  "running s \<Longrightarrow>
     runNow now s =
       (if in_window now s
        then (fst (snapshot now (retry_note now s)), [], snd (snapshot now (retry_note now s)))
        else (fst (snapshot now s), [], snd (snapshot now s)))"
  by (simp add: runNow_def in_window_def retry_note_def Let_def split_beta)

lemma scheduleNext_fields [simp]:
  "running (scheduleNext t s) = running s"
  "progress (scheduleNext t s) = progress s"
  "rateLimitUntil (scheduleNext t s) = rateLimitUntil s"
  "intervalMin (scheduleNext t s) = intervalMin s"
  by (simp_all add: scheduleNext_def)

lemma tick_running:
  "running s \<Longrightarrow> StartRun \<notin> set (fst (tick now s)) \<and> running (snd (tick now s)) \<and>
     progress (snd (tick now s)) = progress s"
  by (simp add: tick_def Let_def)

text \<open>
  C5. While \<open>running\<close> is true, \<open>doRun\<close> returns without changing the state, and neither
  \<open>runNow()\<close> nor \<open>tick()\<close> launches a run: \<open>running\<close> and the progress stay as they are.
  Outside a rate-limit window \<open>runNow()\<close> is exactly \<open>snapshot()\<close>; inside one it first
  notes the retry message and then returns the snapshot. In the states the controller can
  reach, a run in flight is never inside a rate-limit window, so there \<open>runNow()\<close> is
  exactly \<open>snapshot()\<close>.
\<close>

theorem single_flight:
  assumes "running s"
  shows "doRun now s = ([], s) \<and>
         fst (snd (runNow now s)) = [] \<and>
         StartRun \<notin> set (fst (tick now s)) \<and>
         running (snd (snd (runNow now s))) \<and>
         running (snd (tick now s)) \<and>
         progress (snd (snd (runNow now s))) = progress s \<and>
         progress (snd (tick now s)) = progress s \<and>
         (\<not> in_window now s \<longrightarrow>
            runNow now s = (fst (snapshot now s), [], snd (snapshot now s))) \<and>
         (in_window now s \<longrightarrow>
            fst (runNow now s) = fst (snapshot now (retry_note now s))) \<and>
         (reach t s \<and> t \<le> now \<longrightarrow>
            runNow now s = (fst (snapshot now s), [], snd (snapshot now s)))"
proof -
  have d: "doRun now s = ([], s)" using assms by (simp add: doRun_def)
  have r: "running (retry_note now s)" "progress (retry_note now s) = progress s"
    using assms by (simp_all add: retry_note_def)
  have w: "\<not> in_window now s" if "reach t s \<and> t \<le> now"
    using that assms reach_running_not_in_window [of t s now] by blast
  show ?thesis
    using d r w assms tick_running [OF assms, of now] by (auto simp add: runNow_running)
qed

lemma run_in_flight_eq:
  "run_in_flight =
     \<lparr>intervalMin = 0, rateLimitUntil = 0, rateLimitCount = 0, maxDown = 0, maxUp = 0,
      nextRunTs = 0, history = [], runnerInfo = None, runnerName = None,
      progress = Some \<lparr>p_ts = 2000, p_stage = ''starting'', p_ping_ms = None,
                        p_jitter_ms = None, p_down_mbps = None, p_up_mbps = None\<rparr>,
      running = True, lastRun = None, lastError = None\<rparr>"
  by (simp add: run_in_flight_def createSpeedtestController_def clampInt_def scheduleNext_def
      runNow_def doRun_def snapshot_def pruneHistory_def Let_def)

lemma run_in_flight_reach: "reach 2000 run_in_flight"
  unfolding run_in_flight_def
  by (rule reach.ran_now [OF reach.created]) simp_all

theorem single_flight_witness:
  "running run_in_flight \<and>
   reach 2000 run_in_flight \<and>
   doRun 5000 run_in_flight = ([], run_in_flight) \<and>
   runNow 5000 run_in_flight = (fst (snapshot 5000 run_in_flight), [], run_in_flight) \<and>
   StartRun \<notin> set (fst (tick 5000 run_in_flight)) \<and>
   snap_running (fst (runNow 5000 run_in_flight))"
proof -
  have r: "running run_in_flight" by (simp add: run_in_flight_eq)
  have p: "snd (snapshot 5000 run_in_flight) = run_in_flight"
    by (simp add: run_in_flight_eq pruneHistory_def Let_def)
  from single_flight [OF r, of 5000 2000] run_in_flight_reach r p show ?thesis by simp
qed

subsection \<open>The next run inside a rate-limit window\<close>

lemma tick_in_window:
  "intervalMin s \<noteq> 0 \<Longrightarrow> in_window now s \<Longrightarrow> snd (tick now s) = holdNextRun s"
  by (simp add: tick_def in_window_def Let_def)

lemma tick_disabled: "intervalMin s = 0 \<Longrightarrow> snd (tick now s) = s"
  by (simp add: tick_def Let_def)

text \<open>
  C1, as amended. Inside a rate-limit window (\<open>now < rate_limit_until\<close>, the clock being
  non-negative): after \<open>runNow()\<close>, and after \<open>tick()\<close> when \<open>interval_min\<close> is not 0,
  \<open>next_run_ts\<close> is at least \<open>rate_limit_until\<close>, which both leave unchanged. With
  \<open>interval_min = 0\<close> (scheduling disabled) \<open>tick()\<close> returns at its first guard and
  leaves the state as it is.
\<close>

theorem next_run_held_in_window:
  assumes "0 \<le> now" and "now < rateLimitUntil s"
  shows "rateLimitUntil (snd (snd (runNow now s))) = rateLimitUntil s \<and>
         rateLimitUntil s \<le> nextRunTs (snd (snd (runNow now s))) \<and>
         rateLimitUntil s \<le> snap_next_run_ts (fst (runNow now s)) \<and>
         (intervalMin s \<noteq> 0 \<longrightarrow>
            rateLimitUntil (snd (tick now s)) = rateLimitUntil s \<and>
            rateLimitUntil s \<le> nextRunTs (snd (tick now s))) \<and>
         (intervalMin s = 0 \<longrightarrow> snd (tick now s) = s)"
proof -
  from assms have nz: "rateLimitUntil s \<noteq> 0" and pos: "0 < rateLimitUntil s" by simp_all
  have w: "in_window now s" using nz assms(2) by (simp add: in_window_def)
  let ?s1 = "s\<lparr>lastError :=
      Some (''rate_limited: retry in '' @ fmtMin (int_val (rateLimitUntil s - now)))\<rparr>"
  have h1: "rateLimitUntil s \<le> nextRunTs (holdNextRun ?s1)"
    using holdNextRun_ge [of ?s1] pos by simp
  have h2: "rateLimitUntil s \<le> nextRunTs (holdNextRun s)"
    using holdNextRun_ge [of s] pos by simp
  show ?thesis
    using runNow_in_window [OF nz assms(2)] h1 h2 tick_in_window [OF _ w] tick_disabled [of s now]
    by simp
qed

theorem next_run_held_in_window_witness:
  "rateLimitUntil (snd (snd (runNow 1000001 started_in_window))) = 2800000 \<and>
   nextRunTs (snd (snd (runNow 1000001 started_in_window))) = 2800000 \<and>
   nextRunTs (snd (tick 1000001 (started_in_window\<lparr>intervalMin := 5\<rparr>))) = 2800000 \<and>
   2800000 \<le> snap_next_run_ts (fst (runNow 1000001 started_in_window))"
  using next_run_held_in_window [of 1000001 started_in_window]
    next_run_held_in_window [of 1000001 "started_in_window\<lparr>intervalMin := 5\<rparr>"]
  by (simp add: started_in_window_eq runNow_def tick_def holdNextRun_def Let_def split_beta)

text \<open>
  C1 as stated fails: a controller constructed from a persisted state with an active
  rate-limit window and \<open>interval_min = 0\<close> has \<open>next_run_ts = 0\<close>, and \<open>tick()\<close> leaves it
  there, below \<open>rate_limit_until\<close>.
\<close>

theorem tick_disabled_leaves_next_run_unset:
  "reach 1000000 started_in_window \<and>
   1000001 < rateLimitUntil (snd (tick 1000001 started_in_window)) \<and>
   nextRunTs (snd (tick 1000001 started_in_window)) = 0 \<and>
   nextRunTs (snd (tick 1000001 started_in_window))
     < rateLimitUntil (snd (tick 1000001 started_in_window))"
  using started_in_window_reach by (simp add: started_in_window_eq tick_def Let_def)

text \<open>
  \<open>setIntervalMin\<close> reschedules from the current time without the clamp to
  \<open>rate_limit_until\<close> that \<open>tick\<close>, \<open>runNow\<close>, \<open>doRun\<close> and the constructor apply.
\<close>

lemma setIntervalMin_reschedules_from_now:
  "nextRunTs (snd (setIntervalMin (JNum (Fin 5)) 1000001 started_in_window)) = 1300001 \<and>
   rateLimitUntil (snd (setIntervalMin (JNum (Fin 5)) 1000001 started_in_window)) = 2800000"
  by (simp add: started_in_window_eq setIntervalMin_def scheduleNext_def clampInt_def Let_def)

subsection \<open>Gauge hints after a run\<close>

lemma final_result_stage:
  "final_result (map_option (\<lambda>p. p\<lparr>p_stage := st, p_ts := t\<rparr>) pr) res = final_result pr res"
  by (cases pr) (simp_all add: final_result_def cong: option.case_cong)

lemma noteFallback_progress:
  "final_result (progress (noteFallbackRateLimit now s)) res = final_result (progress s) res"
  by (simp add: noteFallbackRateLimit_def Let_def final_result_stage)

lemma clearRateLimit_fields [simp]:
  "progress (clearRateLimit s) = progress s"
  "maxDown (clearRateLimit s) = maxDown s"
  "maxUp (clearRateLimit s) = maxUp s"
  by (simp_all add: clearRateLimit_def)

lemma noteFallback_fields [simp]:
  "maxDown (noteFallbackRateLimit now s) = maxDown s"
  "maxUp (noteFallbackRateLimit now s) = maxUp s"
  by (simp_all add: noteFallbackRateLimit_def Let_def)

lemma pushHistory_fields [simp]:
  "maxDown (pushHistory e now s) = maxDown s"
  "maxUp (pushHistory e now s) = maxUp s"
  by (simp_all add: pushHistory_def Let_def)

lemma recordResult_max:
  "maxDown (recordResult res now s) =
     niceGaugeMaxBucket (num_val (res_down_mbps (final_result (progress s) res))) 250"
  "maxUp (recordResult res now s) =
     niceGaugeMaxBucket (num_val (res_up_mbps (final_result (progress s) res))) 50"
  using bucket_pos [of 250 "num_val (res_down_mbps (final_result (progress s) res))"]
    bucket_pos [of 50 "num_val (res_up_mbps (final_result (progress s) res))"]
  by (simp_all add: recordResult_def Let_def)

lemma doRun_resume_max:
  "maxDown (doRun_resume (Resolved res) now s) = niceGaugeMaxBucket (num_val (observed_down s res)) 250"
  "maxUp (doRun_resume (Resolved res) now s) = niceGaugeMaxBucket (num_val (observed_up s res)) 50"
  by (simp_all add: doRun_resume_def Let_def recordResult_max observed_down_def observed_up_def
      noteFallback_progress)

lemma gauge_input_some:
  "gauge_input (num_val (Some q)) fb = (if 0 < q then q else fb)"
  "gauge_input (num_val None) fb = fb"
  by (simp_all add: gauge_input_def num_val_def)

lemma bucket_observed:
  assumes "0 < fb"
  shows "q \<le> of_int (niceGaugeMaxBucket (num_val (Some q)) fb)"
proof (cases "0 < q")
  case True
  then show ?thesis
    using bucket_ge [of "num_val (Some q)" fb] by (simp add: gauge_input_some)
next
  case False
  have "(0::rat) < of_int (niceGaugeMaxBucket (num_val (Some q)) fb)"
    using bucket_pos [OF assms, of "num_val (Some q)"] by simp
  with False show ?thesis by linarith
qed

lemma bucket_above_table:
  "5000 < q \<Longrightarrow> niceGaugeMaxBucket (num_val (Some q)) fb = \<lceil>q / 1000\<rceil> * 1000"
  by (simp add: bucket_alt gauge_input_some find_gauge)

lemma bucket_fallback_250:
  "v = None \<or> (\<exists>q. v = Some q \<and> q \<le> 0) \<Longrightarrow> niceGaugeMaxBucket (num_val v) 250 = 250"
  by (auto simp add: bucket_alt gauge_input_some gauge_steps_def)

lemma bucket_fallback_50:
  "v = None \<or> (\<exists>q. v = Some q \<and> q \<le> 0) \<Longrightarrow> niceGaugeMaxBucket (num_val v) 50 = 50"
  by (auto simp add: bucket_alt gauge_input_some gauge_steps_def)

text \<open>
  C4, as amended. After each completed run the gauge hints are the buckets of that run's
  final download and upload values (fallbacks 250 and 50), whatever the hints were before.
  Each hint is at least the observed throughput; for an observation in (0, 5000] it is the
  smallest entry of the step table that is at least the observation, above 5000 it is the
  next multiple of 1000, and with no positive observation it is the fallback default.
\<close>

theorem gauge_hints_follow_latest_run:
  "maxDown (doRun_resume (Resolved res) now s) =
     niceGaugeMaxBucket (num_val (observed_down s res)) 250 \<and>
   maxUp (doRun_resume (Resolved res) now s) =
     niceGaugeMaxBucket (num_val (observed_up s res)) 50 \<and>
   (observed_down s res = Some d \<longrightarrow> d \<le> of_int (maxDown (doRun_resume (Resolved res) now s))) \<and>
   (observed_up s res = Some u \<longrightarrow> u \<le> of_int (maxUp (doRun_resume (Resolved res) now s))) \<and>
   (observed_down s res = Some d \<and> 0 < d \<and> d \<le> 5000 \<longrightarrow>
      maxDown (doRun_resume (Resolved res) now s) \<in> set gauge_steps \<and>
      (\<forall>t \<in> set gauge_steps. d \<le> of_int t \<longrightarrow> maxDown (doRun_resume (Resolved res) now s) \<le> t)) \<and>
   (observed_up s res = Some u \<and> 0 < u \<and> u \<le> 5000 \<longrightarrow>
      maxUp (doRun_resume (Resolved res) now s) \<in> set gauge_steps \<and>
      (\<forall>t \<in> set gauge_steps. u \<le> of_int t \<longrightarrow> maxUp (doRun_resume (Resolved res) now s) \<le> t)) \<and>
   (observed_down s res = Some d \<and> 5000 < d \<longrightarrow>
      maxDown (doRun_resume (Resolved res) now s) = \<lceil>d / 1000\<rceil> * 1000) \<and>
   (observed_up s res = Some u \<and> 5000 < u \<longrightarrow>
      maxUp (doRun_resume (Resolved res) now s) = \<lceil>u / 1000\<rceil> * 1000) \<and>
   (observed_down s res = None \<or> (observed_down s res = Some d \<and> d \<le> 0) \<longrightarrow>
      maxDown (doRun_resume (Resolved res) now s) = 250) \<and>
   (observed_up s res = None \<or> (observed_up s res = Some u \<and> u \<le> 0) \<longrightarrow>
      maxUp (doRun_resume (Resolved res) now s) = 50)"
proof -
  have in_tab: "niceGaugeMaxBucket (num_val (Some q)) fb \<in> set gauge_steps \<and>
      (\<forall>t \<in> set gauge_steps. q \<le> of_int t \<longrightarrow> niceGaugeMaxBucket (num_val (Some q)) fb \<le> t)"
    if "0 < q" "q \<le> 5000" for q fb
    using that bucket_in_table [of "num_val (Some q)" fb] bucket_least [of _ "num_val (Some q)" fb]
    by (simp add: gauge_input_some)
  show ?thesis
    unfolding doRun_resume_max
    using in_tab [of d 250] in_tab [of u 50] bucket_observed [of 250 d] bucket_observed [of 50 u]
      bucket_above_table [of d 250] bucket_above_table [of u 50]
      bucket_fallback_250 [of "observed_down s res"] bucket_fallback_50 [of "observed_up s res"]
    by auto
qed

lemma clearRateLimit_until [simp]: "rateLimitUntil (clearRateLimit s) = 0"
  by (simp add: clearRateLimit_def)

lemma recordResult_until [simp]:
  "rateLimitUntil (recordResult res now s) = rateLimitUntil s"
  by (simp add: recordResult_def pushHistory_def Let_def)

lemma runNow_starts:
  "\<not> in_window now s \<Longrightarrow> running (snd (snd (runNow now s)))"
  by (simp add: runNow_def in_window_def doRun_def Let_def split_beta)

lemma after_first_run_until: "rateLimitUntil after_first_run = 0"
  by (simp add: after_first_run_def doRun_resume_def run_800_def Let_def)

lemma after_second_run_reach: "reach 5000 after_second_run"
proof -
  have r1: "reach 3000 after_first_run"
    unfolding after_first_run_def
    by (rule reach.run_ended [OF run_in_flight_reach]) (simp_all add: run_in_flight_eq)
  have w: "\<not> in_window 4000 after_first_run"
    by (simp add: in_window_def after_first_run_until)
  have r2: "reach 4000 (snd (snd (runNow 4000 after_first_run)))"
    by (rule reach.ran_now [OF r1]) simp
  show ?thesis
    unfolding after_second_run_def
    by (rule reach.run_ended [OF r2]) (simp_all add: runNow_starts [OF w])
qed

lemma observed_in_flight:
  "observed_down run_in_flight run_800 = Some 800" "observed_up run_in_flight run_800 = Some 40"
  by (simp_all add: observed_down_def observed_up_def final_result_def run_800_def run_in_flight_eq)

lemma observed_second:
  "observed_down (snd (snd (runNow 4000 after_first_run))) run_100 = Some 100"
  "observed_up (snd (snd (runNow 4000 after_first_run))) run_100 = Some 20"
  by (simp_all add: observed_down_def observed_up_def final_result_def run_100_def
      split: option.splits)

theorem gauge_hints_follow_latest_run_witness:
  "maxDown after_first_run = 1000 \<and> maxUp after_first_run = 50 \<and>
   (800::rat) \<le> of_int (maxDown after_first_run) \<and> maxDown after_first_run \<in> set gauge_steps"
  using gauge_hints_follow_latest_run [of run_800 3000 run_in_flight 800 40]
  by (simp add: after_first_run_def observed_in_flight bucket_alt gauge_input_some gauge_steps_def)

text \<open>
  C4 as stated fails: the hints are not monotone. On a freshly constructed controller a
  run observing 800 down / 40 up sets them to 1000 / 50; the next run, observing 100 / 20,
  sets them to 100 / 25.
\<close>

theorem gauge_hint_decreases:
  "reach 5000 after_second_run \<and>
   maxDown after_first_run = 1000 \<and> maxDown after_second_run = 100 \<and>
   maxUp after_first_run = 50 \<and> maxUp after_second_run = 25 \<and>
   maxDown after_second_run < maxDown after_first_run \<and>
   maxUp after_second_run < maxUp after_first_run"
proof -
  have first: "maxDown after_first_run = 1000" "maxUp after_first_run = 50"
    unfolding after_first_run_def doRun_resume_max observed_in_flight
    by (simp_all add: bucket_alt gauge_input_some gauge_steps_def)
  have second: "maxDown after_second_run = 100" "maxUp after_second_run = 25"
    unfolding after_second_run_def doRun_resume_max observed_second
    by (simp_all add: bucket_alt gauge_input_some gauge_steps_def)
  show ?thesis using after_second_run_reach first second by simp
qed

subsection \<open>Parsing well-formed JSON\<close>

declare scan_step.simps [simp del]

declare pickBestSpeedtestResult.simps [simp del] pickBestLoop.simps [simp del]
  collectBlocks.simps [simp del]

lemma pick_scalar: "\<not> typeof_object v \<Longrightarrow> pickBestSpeedtestResult v = JVNull"
  by (cases v) (simp_all add: pickBestSpeedtestResult.simps)

lemma pick_null: "pickBestSpeedtestResult JVNull = JVNull"
  by (simp add: pickBestSpeedtestResult.simps)

lemma pick_object_kept:
  "type_is_result (JVObj kvs) \<or> inner_of (JVObj kvs) = None \<Longrightarrow>
     pickBestSpeedtestResult (JVObj kvs) = JVObj kvs"
  by (auto simp add: pickBestSpeedtestResult.simps)

lemma safeJsonParse_direct:
  "js_trim text \<noteq> [] \<Longrightarrow> parse (js_trim text) = Some v \<Longrightarrow>
     safeJsonParse parse text =
       ParseOk (js_or (pickBestSpeedtestResult v) v)
               (truthy (pickBestSpeedtestResult v) \<and> pickBestSpeedtestResult v \<noteq> v)"
  by (simp add: safeJsonParse_def Let_def)

text \<open>
  C2, as amended. When the trimmed input is not empty and \<open>JSON.parse\<close> accepts it with
  value \<open>v\<close>, \<open>safeJsonParse\<close> returns \<open>ok = true\<close> with the value
  \<open>pickBestSpeedtestResult(v) || v\<close>, and \<open>salvaged\<close> tells whether that differs from
  \<open>v\<close>. The value is \<open>v\<close> itself, unchanged, when \<open>v\<close> is a scalar or \<open>null\<close>, and when
  \<open>v\<close> is an object that has \<open>type: "result"\<close> or has no object- or array-valued
  \<open>result\<close> / \<open>data\<close> property.
\<close>

theorem safeJsonParse_well_formed:
  assumes "js_trim text \<noteq> []" and "parse (js_trim text) = Some v"
  shows "safeJsonParse parse text =
           ParseOk (js_or (pickBestSpeedtestResult v) v)
                   (truthy (pickBestSpeedtestResult v) \<and> pickBestSpeedtestResult v \<noteq> v) \<and>
         (\<not> typeof_object v \<or> v = JVNull \<longrightarrow> safeJsonParse parse text = ParseOk v False) \<and>
         (v = JVObj kvs \<and> (type_is_result v \<or> inner_of v = None) \<longrightarrow>
            safeJsonParse parse text = ParseOk v False)"
proof -
  note d = safeJsonParse_direct [of "text" parse v, OF assms]
  have a: "safeJsonParse parse text = ParseOk v False" if "\<not> typeof_object v \<or> v = JVNull"
    using that d pick_scalar [of v] pick_null by (auto simp add: js_or_def)
  have b: "safeJsonParse parse text = ParseOk v False"
    if "v = JVObj kvs \<and> (type_is_result v \<or> inner_of v = None)"
    using that d pick_object_kept [of kvs] by (auto simp add: js_or_def)
  show ?thesis using d a b by blast
qed

theorem safeJsonParse_well_formed_witness:
  \<open>safeJsonParse json_parse ''  {"type":"result","ping":{"latency":12.5},"data":{"a":1}} '' =
     ParseOk (JVObj [(''type'', JVStr ''result''),
                     (''ping'', JVObj [(''latency'', JVNum (25 / 2))]),
                     (''data'', JVObj [(''a'', JVNum 1)])]) False\<close>
proof -
  let ?t = \<open>''  {"type":"result","ping":{"latency":12.5},"data":{"a":1}} ''\<close>
  let ?kvs = "[(''type'', JVStr ''result''),
               (''ping'', JVObj [(''latency'', JVNum (25 / 2))]),
               (''data'', JVObj [(''a'', JVNum 1)])]"
  have h1: "js_trim ?t \<noteq> []" by code_simp
  have h2: "json_parse (js_trim ?t) = Some (JVObj ?kvs)" by code_simp
  have h3: "type_is_result (JVObj ?kvs)" by code_simp
  from safeJsonParse_well_formed [of ?t json_parse "JVObj ?kvs" ?kvs, OF h1 h2] h3 show ?thesis by blast
qed

text \<open>
  C2 as stated fails: for the well-formed input \<open>{"data":{"a":1}}\<close> the parser returns the
  nested object \<open>{"a":1}\<close> with \<open>salvaged = true\<close>, not the parsed object.
\<close>

theorem safeJsonParse_substitutes_nested:
  \<open>json_parse ''{"data":{"a":1}}'' = Some (JVObj [(''data'', JVObj [(''a'', JVNum 1)])]) \<and>
   safeJsonParse json_parse ''{"data":{"a":1}}'' = ParseOk (JVObj [(''a'', JVNum 1)]) True \<and>
   safeJsonParse json_parse ''{"data":{"a":1}}''
     \<noteq> ParseOk (JVObj [(''data'', JVObj [(''a'', JVNum 1)])]) False\<close>
  by code_simp

subsection \<open>Salvaging JSON from noisy text\<close>

lemma scan_block_append:
  "scan_block xs i st = Some j \<Longrightarrow> scan_block (xs @ ys) i st = Some j"
  by (induction xs arbitrary: i st) (auto split: option.splits)

lemma scan_block_shift:
  "scan_block xs (i + k) st = map_option (\<lambda>j. j + k) (scan_block xs i st)"
proof (induction xs arbitrary: i st)
  case Nil
  then show ?case by simp
next
  case (Cons ch cs)
  have ih: "scan_block cs (Suc (i + k)) st' = map_option (\<lambda>j. j + k) (scan_block cs (Suc i) st')"
    for st'
    using Cons.IH [of "Suc i" st'] by simp
  show ?case by (simp add: ih split: option.splits)
qed

lemma scan_block_nonempty: "scan_block xs i st = Some j \<Longrightarrow> xs \<noteq> []"
  by (cases xs) simp_all

lemma search_open_none: "no_opener s \<Longrightarrow> search_open s = None"
  by (induction s) (simp_all add: no_opener_def)

lemma search_open_first:
  "no_opener pre \<Longrightarrow> c = CHR ''{'' \<or> c = CHR ''['' \<Longrightarrow>
     search_open (pre @ c # rest) = Some (length pre)"
  by (induction pre) (auto simp add: no_opener_def)

lemma extract_in_context:
  assumes "extractJsonBlockFrom block 0 = Some (block, length block - 1)"
  shows "extractJsonBlockFrom (pre @ block @ post) (length pre) =
           Some (block, length pre + length block - 1)"
proof -
  from assms have sc: "scan_block block 0 (0, False, False) = Some (length block - 1)"
    by (auto simp add: extractJsonBlockFrom_def split: option.splits)
  then have ne: "block \<noteq> []" by (rule scan_block_nonempty)
  from sc have "scan_block (block @ post) 0 (0, False, False) = Some (length block - 1)"
    by (rule scan_block_append)
  then have "scan_block (block @ post) (0 + length pre) (0, False, False)
               = Some (length block - 1 + length pre)"
    by (simp only: scan_block_shift option.map)
  moreover have "length block - 1 + length pre = length pre + length block - 1"
    using ne by (cases block) simp_all
  ultimately have s2: "scan_block (block @ post) (length pre) (0, False, False)
               = Some (length pre + length block - 1)"
    by simp
  have len: "length pre + length block - 1 + 1 - length pre = length block"
    using ne by (cases block) simp_all
  show ?thesis
    using s2 len by (simp add: extractJsonBlockFrom_def slice_def)
qed

lemma collect_step:
  "pos < length s \<Longrightarrow> length blocks < 40 \<Longrightarrow> search_open (drop pos s) = Some rel \<Longrightarrow>
   extractJsonBlockFrom s (pos + rel) = Some (b, e) \<Longrightarrow>
     collectBlocks s pos blocks = collectBlocks s (e + 1) (blocks @ [b])"
  by (subst collectBlocks.simps) simp

lemma collect_stop:
  "search_open (drop pos s) = None \<Longrightarrow> collectBlocks s pos blocks = blocks"
  by (subst collectBlocks.simps) simp

lemma scoreCandidate_nonneg: "0 \<le> scoreCandidate v"
  by (simp add: scoreCandidate_def)

lemma skip_str_sound: "skip_str cs = Some rest \<Longrightarrow> str_tail cs rest"
  by (induction cs rule: skip_str.induct)
     (auto split: if_splits intro: str_tail.intros)

lemma skip_str_open: "skip_str cs = None \<Longrightarrow> open_str cs"
  by (induction cs rule: skip_str.induct)
     (auto split: if_splits intro: open_str.intros)

lemma skip_items_sound:
  "(skip_items n cs = Closed rest \<longrightarrow> items cs rest) \<and>
   (skip_items n cs = Unclosed \<longrightarrow> open_items cs)"
proof (induction n arbitrary: cs rest)
  case 0
  then show ?case by simp
next
  case (Suc n)
  have ih1: "items xs r" if "skip_items n xs = Closed r" for xs r
    using Suc.IH [of xs r] that by simp
  have ih2: "open_items xs" if "skip_items n xs = Unclosed" for xs
    using Suc.IH [of xs rest] that by simp
  show ?case
  proof (cases cs)
    case Nil
    then show ?thesis by (simp add: open_items.ended)
  next
    case (Cons c cs')
    consider "is_closer c" | "\<not> is_closer c" "is_opener c"
      | "\<not> is_closer c" "\<not> is_opener c" "c = CHR 0x22"
      | "\<not> is_closer c" "\<not> is_opener c" "c \<noteq> CHR 0x22"
      by blast
    then show ?thesis
    proof cases
      case 1
      with Cons show ?thesis by (auto intro: items.close)
    next
      case 2
      show ?thesis
      proof (cases "skip_items n cs'")
        case (Closed mid)
        with 2 Cons show ?thesis
          by (auto intro: items.nest open_items.nest_closed ih1 ih2)
      next
        case Unclosed
        with 2 Cons show ?thesis by (auto intro: open_items.nest_open ih2)
      next
        case Undecided
        with 2 Cons show ?thesis by simp
      qed
    next
      case 3
      show ?thesis
      proof (cases "skip_str cs'")
        case None
        with 3 Cons show ?thesis by (auto intro: open_items.str_open skip_str_open)
      next
        case (Some mid)
        with 3 Cons show ?thesis
          by (auto intro: items.str open_items.str_closed skip_str_sound ih1 ih2)
      qed
    next
      case 4
      with Cons show ?thesis by (auto intro: items.plain open_items.plain ih1 ih2)
    qed
  qed
qed

lemma check_block_sound: "check_block b \<Longrightarrow> balanced_block b"
  using skip_items_sound
  by (auto simp add: check_block_def balanced_block_def split: list.splits)

lemma check_open_sound: "check_open cs \<Longrightarrow> open_items cs"
  using skip_items_sound by (auto simp add: check_open_def)

lemma scan_string:
  "str_tail cs rest \<Longrightarrow>
     \<exists>n. length cs = Suc (n + length rest) \<and>
         (\<forall>i d. scan_block cs i (d, True, False) = scan_block rest (Suc (i + n)) (d, False, False))"
proof (induction rule: str_tail.induct)
  case (closed rest)
  show ?case by (rule exI [of _ 0]) (simp add: scan_step.simps)
next
  case (escaped cs rest e)
  then obtain n where n: "length cs = Suc (n + length rest)"
    "\<And>i d. scan_block cs i (d, True, False) = scan_block rest (Suc (i + n)) (d, False, False)"
    by blast
  show ?case
    by (rule exI [of _ "n + 2"]) (simp add: n scan_step.simps)
next
  case (char c cs rest)
  then obtain n where n: "length cs = Suc (n + length rest)"
    "\<And>i d. scan_block cs i (d, True, False) = scan_block rest (Suc (i + n)) (d, False, False)"
    by blast
  show ?case
    using char.hyps by (intro exI [of _ "n + 1"]) (simp add: n scan_step.simps)
qed

lemma scan_items:
  "items cs rest \<Longrightarrow>
     \<exists>n. length cs = Suc (n + length rest) \<and>
         (\<forall>i d. 0 < d \<longrightarrow>
            scan_block cs i (d, False, False) =
              (if d = 1 then Some (i + n) else scan_block rest (Suc (i + n)) (d - 1, False, False)))"
proof (induction rule: items.induct)
  case (close c rest)
  then show ?case
    by (intro exI [of _ 0]) (auto simp add: scan_step.simps is_closer_def)
next
  case (plain c cs rest)
  then obtain n where n: "length cs = Suc (n + length rest)"
    "\<And>i d. 0 < d \<Longrightarrow> scan_block cs i (d, False, False) =
        (if d = 1 then Some (i + n) else scan_block rest (Suc (i + n)) (d - 1, False, False))"
    by blast
  from plain.hyps show ?case
    by (intro exI [of _ "n + 1"]) (auto simp add: n scan_step.simps is_opener_def is_closer_def)
next
  case (str cs mid rest)
  from scan_string [OF str.hyps(1)] obtain k where k: "length cs = Suc (k + length mid)"
    "\<And>i d. scan_block cs i (d, True, False) = scan_block mid (Suc (i + k)) (d, False, False)"
    by blast
  from str.IH obtain n where n: "length mid = Suc (n + length rest)"
    "\<And>i d. 0 < d \<Longrightarrow> scan_block mid i (d, False, False) =
        (if d = 1 then Some (i + n) else scan_block rest (Suc (i + n)) (d - 1, False, False))"
    by blast
  show ?case
    by (intro exI [of _ "k + n + 2"]) (auto simp add: k n scan_step.simps add.assoc)
next
  case (nest c cs mid rest)
  from nest.IH(1) obtain k where k: "length cs = Suc (k + length mid)"
    "\<And>i d. 0 < d \<Longrightarrow> scan_block cs i (d, False, False) =
        (if d = 1 then Some (i + k) else scan_block mid (Suc (i + k)) (d - 1, False, False))"
    by blast
  from nest.IH(2) obtain n where n: "length mid = Suc (n + length rest)"
    "\<And>i d. 0 < d \<Longrightarrow> scan_block mid i (d, False, False) =
        (if d = 1 then Some (i + n) else scan_block rest (Suc (i + n)) (d - 1, False, False))"
    by blast
  from nest.hyps(1) show ?case
    by (intro exI [of _ "k + n + 2"])
       (auto simp add: k n scan_step.simps is_opener_def add.assoc)
qed

lemma balanced_block_scanned:
  assumes "balanced_block b"
  shows "extractJsonBlockFrom b 0 = Some (b, length b - 1)"
proof -
  from assms obtain c cs where b: "b = c # cs" and c: "is_opener c" and it: "items cs []"
    by (auto simp add: balanced_block_def)
  from scan_items [OF it] obtain n where n: "length cs = Suc n"
    "\<And>i d. 0 < d \<Longrightarrow> scan_block cs i (d, False, False) =
        (if d = 1 then Some (i + n) else scan_block [] (Suc (i + n)) (d - 1, False, False))"
    by auto
  have "scan_block b 0 (0, False, False) = Some (Suc n)"
    using c by (auto simp add: b n scan_step.simps is_opener_def)
  then show ?thesis
    by (simp add: extractJsonBlockFrom_def slice_def b n)
qed



lemma scan_open_str: "open_str cs \<Longrightarrow> scan_block cs i (d, True, False) = None"
  by (induction arbitrary: i rule: open_str.induct) (simp_all add: scan_step.simps)

lemma scan_open_items:
  "open_items cs \<Longrightarrow> 0 < d \<Longrightarrow> scan_block cs i (d, False, False) = None"
proof (induction arbitrary: i d rule: open_items.induct)
  case ended
  show ?case by simp
next
  case (plain c cs)
  then show ?case by (simp add: scan_step.simps is_opener_def is_closer_def)
next
  case (str_open cs)
  then show ?case by (simp add: scan_step.simps scan_open_str)
next
  case (str_closed cs mid)
  from scan_string [OF str_closed.hyps(1)] obtain k where
    "\<And>i d. scan_block cs i (d, True, False) = scan_block mid (Suc (i + k)) (d, False, False)"
    by blast
  with str_closed.IH [OF str_closed.prems] show ?case by (simp add: scan_step.simps)
next
  case (nest_open c cs)
  have "scan_block cs (Suc i) (d + 1, False, False) = None"
    using nest_open.prems by (intro nest_open.IH) simp
  with nest_open.hyps(1) show ?case by (auto simp add: scan_step.simps is_opener_def)
next
  case (nest_closed c cs mid)
  from scan_items [OF nest_closed.hyps(2)] obtain k where
    k: "\<And>i d. 0 < d \<Longrightarrow> scan_block cs i (d, False, False) =
        (if d = 1 then Some (i + k) else scan_block mid (Suc (i + k)) (d - 1, False, False))"
    by blast
  have "scan_block cs (Suc i) (d + 1, False, False) = None"
    using nest_closed.prems nest_closed.IH [OF nest_closed.prems] by (simp add: k)
  with nest_closed.hyps(1) show ?case by (auto simp add: scan_step.simps is_opener_def)
qed

lemma stray_opener_fails:
  assumes "is_opener c" and "open_items rest"
  shows "extractJsonBlockFrom (pre @ c # rest) (length pre) = None"
proof -
  have "scan_block (c # rest) (length pre) (0, False, False) = None"
    using assms(1) scan_open_items [OF assms(2), of 1] by (auto simp add: scan_step.simps is_opener_def)
  then show ?thesis by (simp add: extractJsonBlockFrom_def)
qed

lemma collect_full: "\<not> length blocks < 40 \<Longrightarrow> collectBlocks s pos blocks = blocks"
  by (subst collectBlocks.simps) simp

lemma collect_skip:
  "pos < length s \<Longrightarrow> length blocks < 40 \<Longrightarrow> search_open (drop pos s) = Some rel \<Longrightarrow>
   extractJsonBlockFrom s (pos + rel) = None \<Longrightarrow>
     collectBlocks s pos blocks = collectBlocks s (pos + rel + 1) blocks"
  by (subst collectBlocks.simps) simp

lemma collect_top_blocks:
  "top_blocks t bs \<Longrightarrow>
     collectBlocks (pre @ t) (length pre) acc = acc @ take (40 - length acc) bs"
proof (induction arbitrary: pre acc rule: top_blocks.induct)
  case (noise t)
  have "search_open (drop (length pre) (pre @ t)) = None"
    using search_open_none [OF noise] by simp
  then show ?case by (simp add: collect_stop)
next
  case (block n b rest bs)
  let ?whole = "pre @ n @ b @ rest"
  show ?case
  proof (cases "length acc < 40")
    case False
    then show ?thesis by (simp add: collect_full)
  next
    case True
    from block.hyps(2) obtain c cs where bc: "b = c # cs"
      and c: "c = CHR ''{'' \<or> c = CHR ''[''"
      by (auto simp add: balanced_block_def is_opener_def)
    have pos: "length pre < length ?whole" by (simp add: bc)
    have so: "search_open (drop (length pre) ?whole) = Some (length n)"
      using search_open_first [OF block.hyps(1) c, of "cs @ rest"] by (simp add: bc)
    have ex: "extractJsonBlockFrom ?whole (length pre + length n) =
                Some (b, length (pre @ n) + length b - 1)"
      using extract_in_context [OF balanced_block_scanned [OF block.hyps(2)], of "pre @ n" rest]
      by simp
    have e: "length (pre @ n) + length b - 1 + 1 = length ((pre @ n) @ b)"
      by (simp add: bc)
    have "collectBlocks ?whole (length pre) acc =
            collectBlocks ?whole (length (pre @ n) + length b - 1 + 1) (acc @ [b])"
      by (rule collect_step [OF pos True so ex])
    also have "\<dots> = collectBlocks (((pre @ n) @ b) @ rest) (length ((pre @ n) @ b)) (acc @ [b])"
      by (simp only: e append_assoc)
    also have "\<dots> = (acc @ [b]) @ take (40 - length (acc @ [b])) bs"
      by (rule block.IH)
    also have "\<dots> = acc @ take (Suc (39 - length acc)) (b # bs)"
      by simp
    also have "Suc (39 - length acc) = 40 - length acc"
      using True by simp
    finally show ?thesis .
  qed
next
  case (stray n c rest bs)
  let ?whole = "pre @ n @ c # rest"
  show ?case
  proof (cases "length acc < 40")
    case False
    then show ?thesis by (simp add: collect_full)
  next
    case True
    from stray.hyps(2) have c: "c = CHR ''{'' \<or> c = CHR ''[''" by (simp add: is_opener_def)
    have pos: "length pre < length ?whole" by simp
    have so: "search_open (drop (length pre) ?whole) = Some (length n)"
      using search_open_first [OF stray.hyps(1) c, of rest] by simp
    have ex: "extractJsonBlockFrom ?whole (length pre + length n) = None"
      using stray_opener_fails [OF stray.hyps(2,3), of "pre @ n"] by simp
    have "collectBlocks ?whole (length pre) acc =
            collectBlocks ?whole (length pre + length n + 1) acc"
      by (rule collect_skip [OF pos True so ex])
    also have "\<dots> = collectBlocks ((pre @ n @ [c]) @ rest) (length (pre @ n @ [c])) acc"
      by simp
    also have "\<dots> = acc @ take (40 - length acc) bs"
      by (rule stray.IH)
    finally show ?thesis .
  qed
qed

lemma top_blocks_nonempty: "top_blocks t bs \<Longrightarrow> bs \<noteq> [] \<Longrightarrow> t \<noteq> []"
  by (induction rule: top_blocks.induct) (auto simp add: balanced_block_def)

lemma score_keep:
  "\<forall>b \<in> set bs. block_score parse b \<le> sc \<Longrightarrow> scoreBlocks parse bs best sc = best"
  by (induction bs) (auto simp add: block_score_def Let_def split: option.splits)

lemma score_winner:
  assumes "parse b = Some obj"
    and "\<forall>y \<in> set ys. block_score parse y \<le> block_score parse b"
  shows "sc < block_score parse b \<Longrightarrow> \<forall>x \<in> set xs. block_score parse x < block_score parse b \<Longrightarrow>
         scoreBlocks parse (xs @ b # ys) best sc = js_or (pickBestSpeedtestResult obj) obj"
proof (induction xs arbitrary: best sc)
  case Nil
  have "block_score parse b = scoreCandidate (js_or (pickBestSpeedtestResult obj) obj)"
    by (simp add: block_score_def assms(1))
  with Nil assms show ?case by (simp add: Let_def score_keep)
next
  case (Cons x xs)
  show ?case
  proof (cases "parse x")
    case None
    with Cons show ?thesis by simp
  next
    case (Some ox)
    then have bx: "block_score parse x = scoreCandidate (js_or (pickBestSpeedtestResult ox) ox)"
      by (simp add: block_score_def)
    with Cons.prems have lt: "scoreCandidate (js_or (pickBestSpeedtestResult ox) ox) < block_score parse b"
      by simp
    from Cons.prems have rest: "\<forall>x \<in> set xs. block_score parse x < block_score parse b" by simp
    show ?thesis
      using Some Cons.IH [OF lt rest] Cons.IH [OF Cons.prems(1) rest] by (simp add: Let_def)
  qed
qed

lemma result_like_score:
  "prop_truthy c ''ping'' \<Longrightarrow> prop_truthy c ''download'' \<Longrightarrow> prop_truthy c ''upload'' \<Longrightarrow>
     8 \<le> scoreCandidate c"
  by (cases c) (auto simp add: scoreCandidate_def prop_truthy_def)


lemma str_tail_prefix:
  "str_tail cs rest \<Longrightarrow> \<exists>p. cs = p @ rest \<and> (\<forall>r. str_tail (p @ r) r)"
proof (induction rule: str_tail.induct)
  case (closed rest)
  show ?case by (rule exI [of _ "[CHR 0x22]"]) (simp add: str_tail.closed)
next
  case (escaped cs rest e)
  then obtain p where "cs = p @ rest" "\<And>r. str_tail (p @ r) r" by blast
  then show ?case
    by (intro exI [of _ "CHR 0x5C # e # p"]) (simp add: str_tail.escaped)
next
  case (char c cs rest)
  then obtain p where "cs = p @ rest" "\<And>r. str_tail (p @ r) r" by blast
  with char.hyps show ?case
    by (intro exI [of _ "c # p"]) (simp add: str_tail.char)
qed

lemma items_prefix:
  "items cs rest \<Longrightarrow> \<exists>p. cs = p @ rest \<and> (\<forall>r. items (p @ r) r)"
proof (induction rule: items.induct)
  case (close c rest)
  then show ?case by (intro exI [of _ "[c]"]) (simp add: items.close)
next
  case (plain c cs rest)
  then obtain p where "cs = p @ rest" "\<And>r. items (p @ r) r" by blast
  with plain.hyps show ?case
    by (intro exI [of _ "c # p"]) (simp add: items.plain)
next
  case (str cs mid rest)
  from str_tail_prefix [OF str.hyps(1)] obtain p where
    p: "cs = p @ mid" "\<And>r. str_tail (p @ r) r" by blast
  from str.IH obtain q where q: "mid = q @ rest" "\<And>r. items (q @ r) r" by blast
  have "items (CHR 0x22 # p @ q @ r) r" for r
    by (rule items.str [OF p(2) q(2)])
  then show ?case
    by (intro exI [of _ "CHR 0x22 # p @ q"]) (simp add: p q)
next
  case (nest c cs mid rest)
  from nest.IH(1) obtain p where p: "cs = p @ mid" "\<And>r. items (p @ r) r" by blast
  from nest.IH(2) obtain q where q: "mid = q @ rest" "\<And>r. items (q @ r) r" by blast
  have "items (c # p @ q @ r) r" for r
    by (rule items.nest [OF nest.hyps(1) p(2) q(2)])
  then show ?case
    by (intro exI [of _ "c # p @ q"]) (simp add: p q)
qed

lemma skip_items_decided: "length cs < n \<Longrightarrow> skip_items n cs \<noteq> Undecided"
proof (induction n arbitrary: cs)
  case 0
  then show ?case by simp
next
  case (Suc n)
  show ?case
  proof (cases cs)
    case Nil
    then show ?thesis by simp
  next
    case (Cons c cs')
    with Suc.prems have len: "length cs' < n" by simp
    have closed: "skip_items n mid \<noteq> Undecided" if "skip_items n cs' = Closed mid" for mid
    proof -
      from that skip_items_sound [of n cs' mid] have "items cs' mid" by simp
      from scan_items [OF this] have "length mid < length cs'" by auto
      with len show ?thesis by (intro Suc.IH) simp
    qed
    have quoted: "skip_items n mid \<noteq> Undecided" if "skip_str cs' = Some mid" for mid
    proof -
      from scan_string [OF skip_str_sound [OF that]] have "length mid < length cs'" by auto
      with len show ?thesis by (intro Suc.IH) simp
    qed
    show ?thesis
      using Suc.IH [OF len] closed quoted
      by (auto simp add: Cons split: scan_end.splits option.splits)
  qed
qed

lemma top_blocks_total: "\<exists>bs. top_blocks t bs"
proof (induction t rule: length_induct)
  case (1 t)
  show ?case
  proof (cases "no_opener t")
    case True
    then show ?thesis by (auto intro: top_blocks.noise)
  next
    case False
    then have "\<exists>c \<in> set t. is_opener c" by (auto simp add: no_opener_def is_opener_def)
    from split_list_first_prop [OF this] obtain n c rest where
      t: "t = n @ c # rest" and c: "is_opener c" and n: "\<forall>x \<in> set n. \<not> is_opener x"
      by blast
    from n have n: "no_opener n" by (auto simp add: no_opener_def is_opener_def)
    show ?thesis
    proof (cases "skip_items (Suc (length rest)) rest")
      case (Closed mid)
      with skip_items_sound [of "Suc (length rest)" rest mid] have "items rest mid" by simp
      from items_prefix [OF this] obtain p where p: "rest = p @ mid" "items (p @ []) []"
        by blast
      with c have b: "balanced_block (c # p)" by (simp add: balanced_block_def)
      from 1 [rule_format, of mid] obtain bs where "top_blocks mid bs" by (auto simp add: t p)
      from top_blocks.block [OF n b this] show ?thesis by (auto simp add: t p)
    next
      case Unclosed
      with skip_items_sound [of "Suc (length rest)" rest] have o: "open_items rest" by simp
      from 1 [rule_format, of rest] obtain bs where "top_blocks rest bs" by (auto simp add: t)
      from top_blocks.stray [OF n c o this] show ?thesis by (auto simp add: t)
    next
      case Undecided
      with skip_items_decided [of rest "Suc (length rest)"] show ?thesis by simp
    qed
  qed
qed

text \<open>
  C3, as amended. Every text has top-level blocks (\<open>top_blocks_total\<close>), and the salvage
  reads the first 40 of them (\<open>collect_top_blocks\<close>). Let \<open>block\<close> be one of the first 40
  top-level blocks of the trimmed text, whatever noise, other blocks or stray openers
  surround it, and let \<open>JSON.parse\<close> read it as a value \<open>obj\<close>. If the candidate of
  \<open>block\<close> scores strictly more than that of every earlier block and at least as much as
  that of every later block among the first 40, and the whole text is not itself JSON
  (or is just the block), then \<open>safeJsonParse\<close> returns \<open>ok = true\<close> with the candidate
  \<open>pickBestSpeedtestResult(obj) || obj\<close>. The candidate is \<open>obj\<close> itself, hence with its
  \<open>download\<close>, \<open>upload\<close> and \<open>ping\<close>, when \<open>obj\<close> is an object that has \<open>type: "result"\<close>
  or no object- or array-valued \<open>result\<close> / \<open>data\<close> property; \<open>salvaged\<close> tells whether
  the direct parse failed or a nested value was substituted. A candidate with truthy
  \<open>ping\<close>, \<open>download\<close> and \<open>upload\<close> scores at least 8.
\<close>

theorem salvage_best_block:
  assumes blocks: "top_blocks (js_trim text) (before @ block # after)"
    and cap: "length before < 40"
    and obj: "parse block = Some obj" and tr: "truthy obj"
    and earlier: "\<forall>b \<in> set before. block_score parse b < block_score parse block"
    and later: "\<forall>b \<in> set (take (39 - length before) after).
                  block_score parse b \<le> block_score parse block"
    and direct: "parse (js_trim text) = None \<or> js_trim text = block"
  shows "safeJsonParse parse text =
           ParseOk (js_or (pickBestSpeedtestResult obj) obj)
                   (parse (js_trim text) = None \<or> js_or (pickBestSpeedtestResult obj) obj \<noteq> obj) \<and>
         (obj = JVObj kvs \<and> (type_is_result obj \<or> inner_of obj = None) \<longrightarrow>
            safeJsonParse parse text = ParseOk obj (parse (js_trim text) = None)) \<and>
         (prop_truthy (js_or (pickBestSpeedtestResult obj) obj) ''ping'' \<and>
          prop_truthy (js_or (pickBestSpeedtestResult obj) obj) ''download'' \<and>
          prop_truthy (js_or (pickBestSpeedtestResult obj) obj) ''upload'' \<longrightarrow>
            8 \<le> block_score parse block)"
proof -
  let ?c = "js_or (pickBestSpeedtestResult obj) obj"
  let ?s = "js_trim text"
  have tc: "truthy ?c" using tr by (simp add: js_or_def)
  have tne: "?s \<noteq> []" by (rule top_blocks_nonempty [OF blocks]) simp
  have bs: "block_score parse block = scoreCandidate ?c"
    by (simp add: block_score_def obj)
  have main: "safeJsonParse parse text = ParseOk ?c (parse ?s = None \<or> ?c \<noteq> obj)"
  proof (cases "parse ?s")
    case None
    have "collectBlocks ([] @ ?s) (length ([] :: string)) []
            = [] @ take (40 - length ([] :: string list)) (before @ block # after)"
      by (rule collect_top_blocks [OF blocks])
    moreover have "40 - length before = Suc (39 - length before)"
      using cap by simp
    ultimately have cb: "collectBlocks ?s 0 [] = before @ block # take (39 - length before) after"
      by simp
    have "- 1 < block_score parse block"
      using scoreCandidate_nonneg [of ?c] by (simp add: bs)
    from score_winner [OF obj later this earlier, of JVNull]
    have "extractBestJsonBlock parse ?s = ?c"
      by (simp add: extractBestJsonBlock_def cb)
    then show ?thesis using None tne tc by (simp add: safeJsonParse_def Let_def)
  next
    case (Some v)
    with direct have "?s = block" by simp
    with Some obj have v: "v = obj" by simp
    show ?thesis
      using safeJsonParse_direct [of "text" parse v, OF tne Some] v Some
      by (auto simp add: js_or_def)
  qed
  have flat: "safeJsonParse parse text = ParseOk obj (parse ?s = None)"
    if "obj = JVObj kvs \<and> (type_is_result obj \<or> inner_of obj = None)"
    using that main pick_object_kept [of kvs] by (auto simp add: js_or_def)
  have sc: "8 \<le> block_score parse block"
    if "prop_truthy ?c ''ping'' \<and> prop_truthy ?c ''download'' \<and> prop_truthy ?c ''upload''"
    using that result_like_score [of ?c] by (simp add: bs)
  show ?thesis using main flat sc by blast
qed


theorem salvage_best_block_witness:
  \<open>safeJsonParse json_parse
     ''Speedtest [info] [1] [ {"ping":15.2,"download":812,"upload":55.3} {"isp":"x"} [done]'' =
     ParseOk (JVObj [(''ping'', JVNum (76 / 5)), (''download'', JVNum 812),
                     (''upload'', JVNum (553 / 10))]) True\<close>
proof -
  let ?t = \<open>''Speedtest [info] [1] [ {"ping":15.2,"download":812,"upload":55.3} {"isp":"x"} [done]''\<close>
  let ?block = \<open>''{"ping":15.2,"download":812,"upload":55.3}''\<close>
  let ?isp = \<open>''{"isp":"x"}''\<close>
  let ?kvs = "[(''ping'', JVNum (76 / 5)), (''download'', JVNum 812), (''upload'', JVNum (553 / 10))]"
  have sp: "no_opener '' ''" by code_simp
  have d0: "top_blocks [] []" by (rule top_blocks.noise) code_simp
  have d1: "top_blocks ('' '' @ ''[done]'' @ []) [''[done]'']"
    by (rule top_blocks.block [OF sp check_block_sound d0]) code_simp
  have d2: "top_blocks ('' '' @ ?isp @ '' '' @ ''[done]'' @ []) [?isp, ''[done]'']"
    by (rule top_blocks.block [OF sp check_block_sound d1]) code_simp
  have d3: "top_blocks ('' '' @ ?block @ '' '' @ ?isp @ '' '' @ ''[done]'' @ [])
              [?block, ?isp, ''[done]'']"
    by (rule top_blocks.block [OF sp check_block_sound d2]) code_simp
  have br: "is_opener CHR ''[''" by code_simp
  have d4: "top_blocks ('' '' @ CHR ''['' # '' '' @ ?block @ '' '' @ ?isp @ '' '' @ ''[done]'' @ [])
              [?block, ?isp, ''[done]'']"
    by (rule top_blocks.stray [OF sp br check_open_sound d3]) code_simp
  have d5: "top_blocks ('' '' @ ''[1]'' @ '' '' @ CHR ''['' # '' '' @ ?block @ '' '' @ ?isp @ '' '' @ ''[done]'' @ [])
              [''[1]'', ?block, ?isp, ''[done]'']"
    by (rule top_blocks.block [OF sp check_block_sound d4]) code_simp
  have w: "no_opener ''Speedtest ''" by code_simp
  have "top_blocks (''Speedtest '' @ ''[info]'' @ '' '' @ ''[1]'' @ '' '' @ CHR ''['' # '' '' @ ?block @ '' '' @ ?isp @ '' '' @ ''[done]'' @ [])
              [''[info]'', ''[1]'', ?block, ?isp, ''[done]'']"
    by (rule top_blocks.block [OF w check_block_sound d5]) code_simp
  moreover have "js_trim ?t = ''Speedtest '' @ ''[info]'' @ '' '' @ ''[1]'' @ '' '' @ CHR ''['' # '' '' @ ?block @ '' '' @ ?isp @ '' '' @ ''[done]'' @ []"
    by code_simp
  ultimately have h1: "top_blocks (js_trim ?t) ([''[info]'', ''[1]''] @ ?block # [?isp, ''[done]''])"
    by simp
  have h2: "length [''[info]'', ''[1]''] < 40" by simp
  have h3: "json_parse ?block = Some (JVObj ?kvs)" by code_simp
  have h4: "truthy (JVObj ?kvs)" by code_simp
  have s0: "block_score json_parse ?block = 8"
    unfolding block_score_def h3 by code_simp
  have s1: "block_score json_parse ''[info]'' = - 1" by code_simp
  have s2: "block_score json_parse ''[1]'' = 0" by code_simp
  have s3: "block_score json_parse ?isp = 1" by code_simp
  have s4: "block_score json_parse ''[done]'' = - 1" by code_simp
  have h5: "\<forall>b \<in> set [''[info]'', ''[1]'']. block_score json_parse b < block_score json_parse ?block"
    by (simp add: s0 s1 s2)
  have h6: "\<forall>b \<in> set (take (39 - length [''[info]'', ''[1]'']) [?isp, ''[done]'']).
              block_score json_parse b \<le> block_score json_parse ?block"
    by (simp add: s0 s3 s4)
  have h7: "json_parse (js_trim ?t) = None" by code_simp
  have h8: "type_is_result (JVObj ?kvs) \<or> inner_of (JVObj ?kvs) = None" by code_simp
  have h9: "json_parse (js_trim ?t) = None \<or> js_trim ?t = ?block"
    using h7 by (rule disjI1)
  from salvage_best_block [of ?t "[''[info]'', ''[1]'']" ?block "[?isp, ''[done]'']" json_parse
      "JVObj ?kvs" ?kvs, OF h1 h2 h3 h4 h5 h6 h9]
  have "safeJsonParse json_parse ?t = ParseOk (JVObj ?kvs) (json_parse (js_trim ?t) = None)"
    using h8 by blast
  then show ?thesis by (simp only: h7 simp_thms)
qed

text \<open>
  C3 as stated fails, in four ways. An object enclosed in another block is not a
  top-level block: in \<open>[x {"ping":1,"download":2,"upload":3}]\<close> the outer block is not
  JSON and the object inside is never tried (\<open>invalid_json\<close>), and
  \<open>{"a":{"ping":1,"download":2,"upload":3}}\<close>, which is JSON, gives the outer object,
  which has none of the three fields. An object with an object-valued \<open>data\<close> property is
  replaced by that property. A block with \<open>type: "result"\<close> scores 10 and wins over an
  object with the three fields, which scores 8. After forty blocks the scan stops, so an
  object that comes later is never read.
\<close>

theorem salvage_misses_object:
  \<open>json_parse ''{"ping":1,"download":2,"upload":3}''
     = Some (JVObj [(''ping'', JVNum 1), (''download'', JVNum 2), (''upload'', JVNum 3)]) \<and>
   safeJsonParse json_parse ''[x {"ping":1,"download":2,"upload":3}]''
     = InvalidJson ''[x {"ping":1,"download":2,"upload":3}]''
                   ''[x {"ping":1,"download":2,"upload":3}]'' 38 \<and>
   safeJsonParse json_parse ''{"a":{"ping":1,"download":2,"upload":3}}''
     = ParseOk (JVObj [(''a'', JVObj [(''ping'', JVNum 1), (''download'', JVNum 2),
                                      (''upload'', JVNum 3)])]) False \<and>
   safeJsonParse json_parse ''x {"ping":1,"download":2,"upload":3,"data":{"a":1}}''
     = ParseOk (JVObj [(''a'', JVNum 1)]) True \<and>
   safeJsonParse json_parse ''{"type":"result"} {"ping":1,"download":2,"upload":3}''
     = ParseOk (JVObj [(''type'', JVStr ''result'')]) True \<and>
   safeJsonParse json_parse
       (concat (replicate 40 ''x[1]'') @ ''{"ping":1,"download":2,"upload":3}'')
     = ParseOk (JVArr [JVNum 1]) True\<close>
proof -
  let ?obj = \<open>''{"ping":1,"download":2,"upload":3}''\<close>
  let ?many = "concat (replicate 40 ''x[1]'') @ ?obj"
  have trim: "js_trim ?many = ?many" by code_simp
  have ne: "?many \<noteq> []" by simp
  have direct: "json_parse ?many = None" by code_simp
  have blocks: "collectBlocks ?many 0 [] = replicate 40 ''[1]''" by code_simp
  have best: "scoreBlocks json_parse (replicate 40 ''[1]'') JVNull (- 1) = JVArr [JVNum 1]"
    by code_simp
  have "truthy (JVArr [JVNum 1])" by simp
  then have capped: "safeJsonParse json_parse ?many = ParseOk (JVArr [JVNum 1]) True"
    unfolding safeJsonParse_def extractBestJsonBlock_def trim Let_def
    by (simp only: ne direct blocks best if_False if_True option.case)
  have parsed: \<open>json_parse ?obj
       = Some (JVObj [(''ping'', JVNum 1), (''download'', JVNum 2), (''upload'', JVNum 3)])\<close>
    by code_simp
  have enclosed: \<open>safeJsonParse json_parse ''[x {"ping":1,"download":2,"upload":3}]''
       = InvalidJson ''[x {"ping":1,"download":2,"upload":3}]''
                     ''[x {"ping":1,"download":2,"upload":3}]'' 38\<close>
    by code_simp
  have nested: \<open>safeJsonParse json_parse ''{"a":{"ping":1,"download":2,"upload":3}}''
       = ParseOk (JVObj [(''a'', JVObj [(''ping'', JVNum 1), (''download'', JVNum 2),
                                        (''upload'', JVNum 3)])]) False\<close>
    by code_simp
  have replaced: \<open>safeJsonParse json_parse ''x {"ping":1,"download":2,"upload":3,"data":{"a":1}}''
       = ParseOk (JVObj [(''a'', JVNum 1)]) True\<close>
    by code_simp
  have outscored: \<open>safeJsonParse json_parse ''{"type":"result"} {"ping":1,"download":2,"upload":3}''
       = ParseOk (JVObj [(''type'', JVStr ''result'')]) True\<close>
    by code_simp
  show ?thesis
    by (intro conjI parsed enclosed nested replaced outscored capped)
qed

end
